theory Spec2Isabelle
  imports Main "HOL-Library.Word" "HOL-Library.List_Lexorder"
begin

unbundle bit_operations_syntax

chapter \<open>The numeric secondary index (src/filter/numeric_index.hpp)\<close>

section \<open>Machine types\<close>

text \<open>
  \<^verbatim>\<open>uint8_t\<close>, \<^verbatim>\<open>uint16_t\<close> and \<^verbatim>\<open>uint32_t\<close> are words; \<^verbatim>\<open>ndd::idInt\<close> is
  \<^verbatim>\<open>uint32_t\<close> in the default build (core/types.hpp). A \<^verbatim>\<open>float\<close> is represented by
  its IEEE-754 binary32 bit pattern (the code itself only touches it through \<^verbatim>\<open>memcpy\<close>),
  an \<^verbatim>\<open>int32_t\<close> by its two's complement bit pattern, read with \<^const>\<open>sint\<close>.
\<close>

type_synonym u8 = "8 word"

type_synonym u16 = "16 word"

type_synonym u32 = "32 word"
type_synonym idInt = "32 word"
type_synonym bytes = "8 word list"

section \<open>Sortable key utilities\<close>

definition float_to_sortable :: "u32 \<Rightarrow> u32" where
  "float_to_sortable i = (let mask = signed_drop_bit 31 i OR 0x80000000 in i XOR mask)"

definition sortable_to_float :: "u32 \<Rightarrow> u32" where
  "sortable_to_float i = (let mask = (drop_bit 31 i - 1) OR 0x80000000 in i XOR mask)"

definition int_to_sortable :: "u32 \<Rightarrow> u32" where
  "int_to_sortable i = i XOR 0x80000000"

definition sortable_to_int :: "u32 \<Rightarrow> u32" where
  "sortable_to_int i = i XOR 0x80000000"

subsection \<open>Meaning of a binary32 bit pattern\<close>

text \<open>
  The numeric order of two finite floats is the order of their exact values. Every finite
  binary32 value is an integer multiple of \<open>2 powr -149\<close>; \<open>float_value\<close> is that integer
  (the value scaled by \<open>2 ^ 149\<close>), so \<open>float_less\<close> is the comparison \<^verbatim>\<open>a < b\<close> of C++
  on finite operands. Both zeros have value 0.
\<close>

definition float_sign :: "u32 \<Rightarrow> bool" where
  "float_sign w = bit w 31"

definition float_exponent :: "u32 \<Rightarrow> nat" where
  "float_exponent w = (unat w div 2 ^ 23) mod 256"

definition float_mantissa :: "u32 \<Rightarrow> nat" where
  "float_mantissa w = unat w mod 2 ^ 23"

definition float_is_finite :: "u32 \<Rightarrow> bool" where
  "float_is_finite w = (float_exponent w < 255)"

definition float_magnitude :: "u32 \<Rightarrow> nat" where
  "float_magnitude w =
     (if float_exponent w = 0 then float_mantissa w
      else (2 ^ 23 + float_mantissa w) * 2 ^ (float_exponent w - 1))"

definition float_value :: "u32 \<Rightarrow> int" where
  "float_value w = (if float_sign w then - int (float_magnitude w) else int (float_magnitude w))"

definition float_less :: "u32 \<Rightarrow> u32 \<Rightarrow> bool" where
  "float_less a b = (float_value a < float_value b)"

definition float_neg_zero :: u32 where
  "float_neg_zero = 0x80000000"

definition float_pos_zero :: u32 where
  "float_pos_zero = 0"



text \<open>
  The magnitude as a function of the 31 low bits \<open>u\<close> (exponent \<open>u div p\<close>, mantissa
  \<open>u mod p\<close>, \<open>p = 2 ^ 23\<close>); used to show that it grows with \<open>u\<close>.
\<close>

definition mag_gen :: "nat \<Rightarrow> nat \<Rightarrow> nat" where
  "mag_gen p u = (if u div p = 0 then u mod p else (p + u mod p) * 2 ^ (u div p - 1))"


section \<open>Errors\<close>

text \<open>
  Every \<^verbatim>\<open>throw std::runtime_error(...)\<close> of the source is a constructor, named after its
  message. \<open>BitmapReadFailed\<close> stands for the exception \<^verbatim>\<open>RoaringBitmap::read\<close> raises on
  input it cannot parse. The specification groups the first two as \<^emph>\<open>InvariantViolation\<close>
  and the three \<^verbatim>\<open>"Bucket corrupt: ..."\<close> messages as \<^emph>\<open>Corrupt\<close>.
\<close>

datatype error =
    InsertBelowBase
  | DeltaOverflow
  | CorruptBitmapSize
  | CorruptTruncatedCount
  | CorruptTruncatedData
  | BitmapReadFailed
  | CursorSyncFail

definition is_invariant_violation :: "error \<Rightarrow> bool" where
  "is_invariant_violation e = (e = InsertBelowBase \<or> e = DeltaOverflow)"

definition is_corrupt :: "error \<Rightarrow> bool" where
  "is_corrupt e = (e = CorruptBitmapSize \<or> e = CorruptTruncatedCount \<or> e = CorruptTruncatedData)"

section \<open>Byte order\<close>

text \<open>
  \<^verbatim>\<open>memcpy\<close> of an integer on the little-endian target writes its least significant byte
  first; \<^verbatim>\<open>__builtin_bswap32\<close> followed by \<^verbatim>\<open>memcpy\<close> writes the most significant first.
\<close>

definition le16 :: "u16 \<Rightarrow> bytes" where
  "le16 w = [ucast w, ucast (drop_bit 8 w)]"

definition le32 :: "u32 \<Rightarrow> bytes" where
  "le32 w = [ucast w, ucast (drop_bit 8 w), ucast (drop_bit 16 w), ucast (drop_bit 24 w)]"

definition be32 :: "u32 \<Rightarrow> bytes" where
  "be32 w = [ucast (drop_bit 24 w), ucast (drop_bit 16 w), ucast (drop_bit 8 w), ucast w]"

definition rd_le16 :: "bytes \<Rightarrow> u16" where
  "rd_le16 bs = ucast (bs ! 0) OR push_bit 8 (ucast (bs ! 1))"

definition rd_le32 :: "bytes \<Rightarrow> u32" where
  "rd_le32 bs = ucast (bs ! 0) OR push_bit 8 (ucast (bs ! 1)) OR push_bit 16 (ucast (bs ! 2))
                 OR push_bit 24 (ucast (bs ! 3))"

definition rd_be32 :: "bytes \<Rightarrow> u32" where
  "rd_be32 bs = push_bit 24 (ucast (bs ! 0)) OR push_bit 16 (ucast (bs ! 1))
                 OR push_bit 8 (ucast (bs ! 2)) OR ucast (bs ! 3)"

section \<open>The bitmap library\<close>

text \<open>
  \<^verbatim>\<open>ndd::RoaringBitmap\<close> (third_party/roaring_bitmap) is a set of ids; its serialized form is
  not part of this repository's code, so the two directions of its codec are parameters of
  the model: \<open>bm_write\<close> gives the bytes \<^verbatim>\<open>write\<close> emits after \<^verbatim>\<open>runOptimize\<close> (their number
  is \<^verbatim>\<open>getSizeInBytes\<close>), \<open>bm_read\<close> is \<^verbatim>\<open>read\<close>, which is handed a pointer without a
  length (here: all bytes from that pointer on) and raises on input it cannot parse.
\<close>

record bitmap_codec =
  bm_write :: "idInt set \<Rightarrow> bytes"
  bm_read :: "bytes \<Rightarrow> idInt set option"

section \<open>Bucket\<close>

record Bucket =
  base_value :: u32
  deltas :: "u16 list"
  ids :: "idInt list"
  summary_bitmap :: "idInt set"
  is_dirty :: bool

definition MAX_SIZE :: nat where
  "MAX_SIZE = 1024"

definition MAX_DELTA :: u32 where
  "MAX_DELTA = 65535"

text \<open>A default-constructed bucket.\<close>

definition new_bucket :: Bucket where
  "new_bucket = \<lparr>base_value = 0, deltas = [], ids = [], summary_bitmap = {}, is_dirty = False\<rparr>"

definition get_value :: "Bucket \<Rightarrow> nat \<Rightarrow> u32" where
  "get_value b index = base_value b + ucast (deltas b ! index)"

text \<open>
  \<^verbatim>\<open>std::lower_bound\<close>: the partition point of a range partitioned by \<open>x < d\<close>, which
  every sorted range is; that is the number of leading elements below \<open>d\<close>.
\<close>

definition lower_bound :: "u16 list \<Rightarrow> u16 \<Rightarrow> nat" where
  "lower_bound xs d = length (takeWhile (\<lambda>x. x < d) xs)"

definition Bucket_add :: "Bucket \<Rightarrow> u32 \<Rightarrow> idInt \<Rightarrow> error + Bucket" where
  "Bucket_add b val rid =
     (if val < base_value b then Inl InsertBelowBase
      else
        let delta_32 = val - base_value b in
        if delta_32 > MAX_DELTA then Inl DeltaOverflow
        else
          let delta = (ucast delta_32 :: u16);
              index = lower_bound (deltas b) delta
          in Inr (b\<lparr>deltas := take index (deltas b) @ delta # drop index (deltas b),
                      ids := take index (ids b) @ rid # drop index (ids b),
                      summary_bitmap := insert rid (summary_bitmap b),
                      is_dirty := True\<rparr>))"

text \<open>The linear scan of \<^verbatim>\<open>Bucket::remove\<close>: the first index holding the id.\<close>

fun find_id :: "idInt list \<Rightarrow> idInt \<Rightarrow> nat option" where
  "find_id [] rid = None"
| "find_id (x # xs) rid = (if x = rid then Some 0 else map_option Suc (find_id xs rid))"

definition Bucket_remove :: "Bucket \<Rightarrow> idInt \<Rightarrow> bool \<times> Bucket" where
  "Bucket_remove b rid =
     (case find_id (ids b) rid of
        Some i \<Rightarrow>
          (True, b\<lparr>ids := take i (ids b) @ drop (Suc i) (ids b),
                    deltas := take i (deltas b) @ drop (Suc i) (deltas b),
                    summary_bitmap := summary_bitmap b - {rid},
                    is_dirty := True\<rparr>)
      | None \<Rightarrow> (False, b))"

definition is_full :: "Bucket \<Rightarrow> bool" where
  "is_full b = (length (ids b) \<ge> MAX_SIZE)"

definition is_empty :: "Bucket \<Rightarrow> bool" where
  "is_empty b = (ids b = [])"

text \<open>
  Layout: bitmap size (4 bytes), bitmap bytes, count (2 bytes), \<open>count\<close> deltas of 2 bytes,
  \<open>count\<close> ids of 4 bytes. The count is \<^verbatim>\<open>static_cast<uint16_t>(ids.size())\<close>.
\<close>

definition Bucket_serialize :: "bitmap_codec \<Rightarrow> Bucket \<Rightarrow> bytes" where
  "Bucket_serialize cd b =
     (let bm = bm_write cd (summary_bitmap b);
          bm_size = length bm;
          count = (of_nat (length (ids b)) :: u16);
          bm_size_32 = (of_nat bm_size :: u32)
      in le32 bm_size_32
         @ (if bm_size > 0 then bm else [])
         @ le16 count
         @ (if count > 0 then concat (map le16 (take (unat count) (deltas b))) else [])
         @ (if count > 0 then concat (map le32 (take (unat count) (ids b))) else []))"

definition Bucket_deserialize :: "bitmap_codec \<Rightarrow> bytes \<Rightarrow> u32 \<Rightarrow> error + Bucket" where
  "Bucket_deserialize cd data base_val =
     (let b = new_bucket\<lparr>base_value := base_val\<rparr>;
          len = length data
      in
      if len < 6 then Inr b
      else
        let bm_size = unat (rd_le32 (take 4 data)) in
        if 4 + bm_size > len then Inl CorruptBitmapSize
        else
          case (if bm_size > 0 then bm_read cd (drop 4 data) else Some {}) of
            None \<Rightarrow> Inl BitmapReadFailed
          | Some bm \<Rightarrow>
              let p = 4 + bm_size in
              if p + 2 > len then Inl CorruptTruncatedCount
              else
                let count = unat (rd_le16 (take 2 (drop p data)));
                    q = p + 2
                in
                if count > 0 then
                  let delta_size = count * 2;
                      id_size = count * 4
                  in
                  if q + delta_size + id_size > len then Inl CorruptTruncatedData
                  else
                    Inr (b\<lparr>summary_bitmap := bm,
                            deltas := map (\<lambda>i. rd_le16 (take 2 (drop (q + 2 * i) data))) [0..<count],
                            ids := map (\<lambda>i. rd_le32 (take 4 (drop (q + delta_size + 4 * i) data)))
                                     [0..<count]\<rparr>)
                else Inr (b\<lparr>summary_bitmap := bm\<rparr>))"


section \<open>The ordered key-value store\<close>

text \<open>
  The MDBX tables are external; the model keeps their contract. The inverted table is the
  list of its (key, value) pairs in increasing key order, keys compared as raw bytes,
  lexicographically (a proper prefix is smaller). A positioned cursor is an index into that
  list. Each function below is one cursor or table operation the source calls; \<open>None\<close> is
  \<^verbatim>\<open>MDBX_NOTFOUND\<close>. A move that fails leaves the cursor where it was.
\<close>

type_synonym kv = "(bytes \<times> bytes) list"

text \<open>The number of entries whose key is below \<open>k\<close>: the position of the first key \<open>\<ge> k\<close>.\<close>

definition kv_lower :: "kv \<Rightarrow> bytes \<Rightarrow> nat" where
  "kv_lower db k = length (takeWhile (\<lambda>e. fst e < k) db)"

text \<open>\<^verbatim>\<open>mdbx_cursor_get(..., MDBX_SET_RANGE)\<close>\<close>

definition cursor_set_range :: "kv \<Rightarrow> bytes \<Rightarrow> nat option" where
  "cursor_set_range db k = (let i = kv_lower db k in if i < length db then Some i else None)"

text \<open>\<^verbatim>\<open>mdbx_cursor_get(..., MDBX_SET)\<close>\<close>

definition cursor_set :: "kv \<Rightarrow> bytes \<Rightarrow> nat option" where
  "cursor_set db k =
     (let i = kv_lower db k in if i < length db \<and> fst (db ! i) = k then Some i else None)"

text \<open>\<^verbatim>\<open>MDBX_PREV\<close>, \<^verbatim>\<open>MDBX_NEXT\<close>, \<^verbatim>\<open>MDBX_LAST\<close>\<close>

definition cursor_prev :: "nat \<Rightarrow> nat option" where
  "cursor_prev i = (if 0 < i then Some (i - 1) else None)"

definition cursor_next :: "kv \<Rightarrow> nat \<Rightarrow> nat option" where
  "cursor_next db i = (if Suc i < length db then Some (Suc i) else None)"

definition cursor_last :: "kv \<Rightarrow> nat option" where
  "cursor_last db = (if db = [] then None else Some (length db - 1))"

text \<open>\<^verbatim>\<open>mdbx_cursor_put(..., MDBX_CURRENT)\<close> and \<^verbatim>\<open>mdbx_cursor_del\<close>\<close>

definition cursor_put :: "kv \<Rightarrow> nat \<Rightarrow> bytes \<Rightarrow> kv" where
  "cursor_put db i v = db[i := (fst (db ! i), v)]"

definition cursor_del :: "kv \<Rightarrow> nat \<Rightarrow> kv" where
  "cursor_del db i = take i db @ drop (Suc i) db"

text \<open>\<^verbatim>\<open>mdbx_put(..., MDBX_UPSERT)\<close>\<close>

definition kv_put :: "kv \<Rightarrow> bytes \<Rightarrow> bytes \<Rightarrow> kv" where
  "kv_put db k v =
     (let i = kv_lower db k in
      if i < length db \<and> fst (db ! i) = k then db[i := (k, v)]
      else take i db @ (k, v) # drop i db)"

section \<open>Keys\<close>

definition colon :: u8 where
  "colon = 0x3A"

text \<open>\<^verbatim>\<open>std::to_string\<close> of an unsigned id: its decimal digits.\<close>

function to_string :: "nat \<Rightarrow> bytes" where
  "to_string n =
     (if n < 10 then [of_nat (48 + n)]
      else to_string (n div 10) @ [of_nat (48 + n mod 10)])"
  by pat_completeness auto
termination
  by (relation "measure (\<lambda>n. n)") auto

declare to_string.simps [simp del]

definition make_forward_key :: "bytes \<Rightarrow> idInt \<Rightarrow> bytes" where
  "make_forward_key field rid = field @ [colon] @ to_string (unat rid)"

definition make_bucket_key :: "bytes \<Rightarrow> u32 \<Rightarrow> bytes" where
  "make_bucket_key field start_val = field @ [colon] @ be32 start_val"

definition parse_bucket_key_val :: "bytes \<Rightarrow> u32" where
  "parse_bucket_key_val key =
     (if length key < 4 then 0 else rd_be32 (drop (length key - 4) key))"

text \<open>\<^verbatim>\<open>key.rfind(field + ":", 0) == 0\<close>: the key starts with the field name and a colon.\<close>

definition has_field_prefix :: "bytes \<Rightarrow> bytes \<Rightarrow> bool" where
  "has_field_prefix key field = (take (length field + 1) key = field @ [colon])"


section \<open>NumericIndex\<close>

text \<open>
  The state is the content of the two tables. The forward table is only read and written
  by exact key, so it is a map from key to the stored 32-bit value.
\<close>

record NumericIndex =
  forward_db :: "bytes \<rightharpoonup> u32"
  inverted_db :: kv

definition empty_index :: NumericIndex where
  "empty_index = \<lparr>forward_db = Map.empty, inverted_db = []\<rparr>"

text \<open>
  The cursor positioning shared, line for line, by \<open>remove_from_buckets\<close> and
  \<open>add_to_buckets\<close>: seek the first key \<open>\<ge>\<close> the search key; step back when that key is of
  another field or its base is above the value; go to the last key when the seek found
  nothing.
\<close>

definition position_cursor :: "kv \<Rightarrow> bytes \<Rightarrow> u32 \<Rightarrow> nat option" where
  "position_cursor db field val =
     (case cursor_set_range db (make_bucket_key field val) of
        Some i \<Rightarrow>
          let found_key = fst (db ! i) in
          if \<not> has_field_prefix found_key field \<or> parse_bucket_key_val found_key > val
          then cursor_prev i else Some i
      | None \<Rightarrow> cursor_last db)"

definition remove_from_buckets ::
  "bitmap_codec \<Rightarrow> kv \<Rightarrow> bytes \<Rightarrow> u32 \<Rightarrow> idInt \<Rightarrow> error + kv" where
  "remove_from_buckets cd db field val rid =
     (case position_cursor db field val of
        None \<Rightarrow> Inr db
      | Some c \<Rightarrow>
          let found_key = fst (db ! c) in
          if has_field_prefix found_key field then
            let bucket_base = parse_bucket_key_val found_key in
            if val \<ge> bucket_base then
              case Bucket_deserialize cd (snd (db ! c)) bucket_base of
                Inl e \<Rightarrow> Inl e
              | Inr b \<Rightarrow>
                  (case Bucket_remove b rid of
                     (True, b') \<Rightarrow>
                       if is_empty b' then Inr (cursor_del db c)
                       else Inr (cursor_put db c (Bucket_serialize cd b'))
                   | (False, b') \<Rightarrow> Inr db)
            else Inr db
          else Inr db)"

text \<open>The two probes of the split: right from the median, then left from it.\<close>

function probe_right_loop :: "u16 list \<Rightarrow> nat \<Rightarrow> nat" where
  "probe_right_loop ds p =
     (if p < length ds \<and> p > 0 \<and> ds ! p = ds ! (p - 1) then probe_right_loop ds (Suc p) else p)"
  by pat_completeness auto
termination
  by (relation "measure (\<lambda>(ds, p). length ds - p)") auto

declare probe_right_loop.simps [simp del]

function probe_left_loop :: "u16 list \<Rightarrow> nat \<Rightarrow> nat" where
  "probe_left_loop ds p =
     (if p > 0 \<and> ds ! p = ds ! (p - 1) then probe_left_loop ds (p - 1) else p)"
  by pat_completeness auto
termination
  by (relation "measure (\<lambda>(ds, p). p)") auto

declare probe_left_loop.simps [simp del]

text \<open>The cut index; \<open>deltas.size()\<close> when no cut lies on a value boundary.\<close>

definition split_point :: "Bucket \<Rightarrow> nat" where
  "split_point b =
     (let mid_idx = length (ids b) div 2;
          probe_right = probe_right_loop (deltas b) mid_idx
      in
      if probe_right < length (deltas b) then probe_right
      else
        let probe_left = probe_left_loop (deltas b) mid_idx in
        if probe_left > 0 then probe_left else length (deltas b))"

text \<open>The loop moving the entries from the cut on into the right bucket.\<close>

fun move_entries :: "Bucket \<Rightarrow> u32 \<Rightarrow> (u16 \<times> idInt) list \<Rightarrow> error + Bucket" where
  "move_entries right_b base [] = Inr right_b"
| "move_entries right_b base ((d, rid) # es) =
     (case Bucket_add right_b (base + ucast d) rid of
        Inl e \<Rightarrow> Inl e
      | Inr right_b' \<Rightarrow> move_entries right_b' base es)"

text \<open>
  The standard slide split at \<open>mid_idx\<close>, up to the insertion of the new entry; returns the
  left and the right bucket.
\<close>

definition slide_split :: "Bucket \<Rightarrow> nat \<Rightarrow> u32 \<Rightarrow> idInt \<Rightarrow> error + (Bucket \<times> Bucket)" where
  "slide_split b mid_idx val rid =
     (let right_b0 = new_bucket\<lparr>base_value := base_value b + ucast (deltas b ! mid_idx)\<rparr> in
      case move_entries right_b0 (base_value b) (drop mid_idx (zip (deltas b) (ids b))) of
        Inl e \<Rightarrow> Inl e
      | Inr right_b \<Rightarrow>
          let left_b = b\<lparr>deltas := take mid_idx (deltas b),
                         ids := take mid_idx (ids b),
                         summary_bitmap := fold insert (take mid_idx (ids b)) {}\<rparr>
          in
          if val \<ge> base_value right_b then
            (case Bucket_add right_b val rid of
               Inl e \<Rightarrow> Inl e
             | Inr right_b' \<Rightarrow> Inr (left_b, right_b'))
          else
            (case Bucket_add left_b val rid of
               Inl e \<Rightarrow> Inl e
             | Inr left_b' \<Rightarrow> Inr (left_b', right_b)))"

definition add_to_buckets ::
  "bitmap_codec \<Rightarrow> kv \<Rightarrow> bytes \<Rightarrow> u32 \<Rightarrow> idInt \<Rightarrow> error + kv" where
  "add_to_buckets cd db field val rid =
     (let target =
        (case position_cursor db field val of
           Some c \<Rightarrow>
             let found_key = fst (db ! c) in
             if has_field_prefix found_key field then
               let target_base = parse_bucket_key_val found_key in
               if val \<ge> target_base \<and> unat val - unat target_base \<le> unat MAX_DELTA
               then Some (found_key, target_base) else None
             else None
         | None \<Rightarrow> None)
      in
      case target of
        None \<Rightarrow>
          (case Bucket_add (new_bucket\<lparr>base_value := val\<rparr>) val rid of
             Inl e \<Rightarrow> Inl e
           | Inr b \<Rightarrow> Inr (kv_put db (make_bucket_key field val) (Bucket_serialize cd b)))
      | Some (target_key_str, target_base) \<Rightarrow>
          (case cursor_set db target_key_str of
             None \<Rightarrow> Inl CursorSyncFail
           | Some c \<Rightarrow>
               (case Bucket_deserialize cd (snd (db ! c)) target_base of
                  Inl e \<Rightarrow> Inl e
                | Inr b \<Rightarrow>
                    if length (ids b) \<ge> MAX_SIZE then
                      let mid_idx = split_point b in
                      if mid_idx = length (deltas b) then
                        (case Bucket_add b val rid of
                           Inl e \<Rightarrow> Inl e
                         | Inr b' \<Rightarrow> Inr (cursor_put db c (Bucket_serialize cd b')))
                      else
                        (case slide_split b mid_idx val rid of
                           Inl e \<Rightarrow> Inl e
                         | Inr (left_b, right_b) \<Rightarrow>
                             Inr (kv_put (cursor_put db c (Bucket_serialize cd left_b))
                                    (make_bucket_key field (base_value right_b))
                                    (Bucket_serialize cd right_b)))
                    else
                      (case Bucket_add b val rid of
                         Inl e \<Rightarrow> Inl e
                       | Inr b' \<Rightarrow> Inr (cursor_put db c (Bucket_serialize cd b'))))))"

definition put_internal ::
  "bitmap_codec \<Rightarrow> NumericIndex \<Rightarrow> bytes \<Rightarrow> idInt \<Rightarrow> u32 \<Rightarrow> error + NumericIndex" where
  "put_internal cd s field rid val =
     (let fwd_key = make_forward_key field rid;
          update = (\<lambda>db.
            case add_to_buckets cd db field val rid of
              Inl e \<Rightarrow> Inl e
            | Inr db' \<Rightarrow> Inr \<lparr>forward_db = (forward_db s)(fwd_key \<mapsto> val), inverted_db = db'\<rparr>)
      in
      case forward_db s fwd_key of
        Some old_val \<Rightarrow>
          if old_val = val then Inr s
          else
            (case remove_from_buckets cd (inverted_db s) field old_val rid of
               Inl e \<Rightarrow> Inl e
             | Inr db \<Rightarrow> update db)
      | None \<Rightarrow> update (inverted_db s))"

text \<open>
  The public operations run in a transaction: the new state is committed when the body
  returns, and an exception aborts it, so \<open>Inl\<close> leaves the tables as they were.
\<close>

definition NumericIndex_put ::
  "bitmap_codec \<Rightarrow> NumericIndex \<Rightarrow> bytes \<Rightarrow> idInt \<Rightarrow> u32 \<Rightarrow> error + NumericIndex" where
  "NumericIndex_put cd s field rid val = put_internal cd s field rid val"

definition NumericIndex_remove ::
  "bitmap_codec \<Rightarrow> NumericIndex \<Rightarrow> bytes \<Rightarrow> idInt \<Rightarrow> error + NumericIndex" where
  "NumericIndex_remove cd s field rid =
     (let fwd_key = make_forward_key field rid in
      case forward_db s fwd_key of
        Some old_val \<Rightarrow>
          (case remove_from_buckets cd (inverted_db s) field old_val rid of
             Inl e \<Rightarrow> Inl e
           | Inr db \<Rightarrow> Inr \<lparr>forward_db = (forward_db s)(fwd_key := None), inverted_db = db\<rparr>)
      | None \<Rightarrow> Inr s)"

text \<open>
  \<open>range\<close>. \<open>range_start\<close> is the positioning before the loop: it returns the cursor
  position together with the index of the entry held in \<^verbatim>\<open>key\<close>/\<^verbatim>\<open>data\<close> (they differ
  when the step back reached a key of another field, which moves the cursor but is not
  taken over), or \<open>None\<close> when \<^verbatim>\<open>rc\<close> is not \<^verbatim>\<open>MDBX_SUCCESS\<close>.
\<close>

definition range_start :: "kv \<Rightarrow> bytes \<Rightarrow> u32 \<Rightarrow> (nat \<times> nat) option" where
  "range_start db field min_val =
     (case cursor_set_range db (make_bucket_key field min_val) of
        Some i \<Rightarrow>
          let fkey = fst (db ! i) in
          if \<not> has_field_prefix fkey field \<or> parse_bucket_key_val fkey > min_val then
            (case cursor_prev i of
               Some p \<Rightarrow> if has_field_prefix (fst (db ! p)) field then Some (p, p) else Some (p, i)
             | None \<Rightarrow> Some (i, i))
          else Some (i, i)
      | None \<Rightarrow>
          (case cursor_last db of
             Some l \<Rightarrow>
               if length (snd (db ! l)) > 0 \<and> has_field_prefix (fst (db ! l)) field
               then Some (l, l) else None
           | None \<Rightarrow> None))"

text \<open>The per-entry filter of a partially overlapping bucket, from entry \<open>i\<close> on.\<close>

definition filter_entries :: "Bucket \<Rightarrow> u32 \<Rightarrow> u32 \<Rightarrow> idInt set \<Rightarrow> idInt set" where
  "filter_entries b min_val max_val result =
     fold (\<lambda>i r. let v = get_value b i in
                  if v \<ge> min_val \<and> v \<le> max_val then insert (ids b ! i) r else r)
          [0..<length (ids b)] result"

definition scan_bucket :: "Bucket \<Rightarrow> u32 \<Rightarrow> u32 \<Rightarrow> idInt set \<Rightarrow> idInt set" where
  "scan_bucket b min_val max_val result =
     (if ids b = [] then result
      else
        let b_min = get_value b 0;
            b_max = get_value b (length (ids b) - 1)
        in
        if b_min \<ge> min_val \<and> b_max \<le> max_val then result \<union> summary_bitmap b
        else filter_entries b min_val max_val result)"

function range_loop ::
  "bitmap_codec \<Rightarrow> kv \<Rightarrow> bytes \<Rightarrow> u32 \<Rightarrow> u32 \<Rightarrow> nat \<Rightarrow> nat \<Rightarrow> idInt set \<Rightarrow> error + idInt set"
where
  "range_loop cd db field min_val max_val cur held result =
     (let cur_key = fst (db ! held) in
      if \<not> has_field_prefix cur_key field then Inr result
      else
        let bucket_base = parse_bucket_key_val cur_key in
        if bucket_base > max_val then Inr result
        else
          case Bucket_deserialize cd (snd (db ! held)) bucket_base of
            Inl e \<Rightarrow> Inl e
          | Inr b \<Rightarrow>
              let result' = scan_bucket b min_val max_val result in
              (case cursor_next db cur of
                 None \<Rightarrow> Inr result'
               | Some n \<Rightarrow> range_loop cd db field min_val max_val n n result'))"
  by pat_completeness auto
termination
  by (relation "measure (\<lambda>(cd, db, field, min_val, max_val, cur, held, result). length db - cur)")
     (auto simp add: cursor_next_def split: if_splits)

declare range_loop.simps [simp del]

definition NumericIndex_range ::
  "bitmap_codec \<Rightarrow> NumericIndex \<Rightarrow> bytes \<Rightarrow> u32 \<Rightarrow> u32 \<Rightarrow> error + idInt set" where
  "NumericIndex_range cd s field min_val max_val =
     (case range_start (inverted_db s) field min_val of
        None \<Rightarrow> Inr {}
      | Some (cur, held) \<Rightarrow> range_loop cd (inverted_db s) field min_val max_val cur held {})"

text \<open>Sequences of public operations; an operation that raises leaves the state unchanged.\<close>

datatype op = Put bytes idInt u32 | Remove bytes idInt

definition apply_op :: "bitmap_codec \<Rightarrow> NumericIndex \<Rightarrow> op \<Rightarrow> NumericIndex" where
  "apply_op cd s x =
     (case (case x of Put field rid val \<Rightarrow> NumericIndex_put cd s field rid val
                    | Remove field rid \<Rightarrow> NumericIndex_remove cd s field rid) of
        Inl e \<Rightarrow> s
      | Inr s' \<Rightarrow> s')"

definition run_ops :: "bitmap_codec \<Rightarrow> op list \<Rightarrow> NumericIndex" where
  "run_ops cd xs = foldl (apply_op cd) empty_index xs"


chapter \<open>Specification vocabulary\<close>

section \<open>Contract of the bitmap codec\<close>

text \<open>
  What the model needs of the bitmap library for one set \<open>s\<close>: the serialized size fits
  the 32-bit size field, an empty serialization stands for the empty set only, and \<open>read\<close>
  recovers \<open>s\<close> from the bytes \<open>write\<close> produced, whatever follows them in the buffer.
\<close>

definition codec_ok :: "bitmap_codec \<Rightarrow> idInt set \<Rightarrow> bool" where
  "codec_ok cd s \<longleftrightarrow>
     length (bm_write cd s) < 2 ^ 32 \<and>
     (bm_write cd s = [] \<longrightarrow> s = {}) \<and>
     (\<forall>rest. bm_read cd (bm_write cd s @ rest) = Some s)"

text \<open>
  A simple codec that meets the contract (a 32-bit count followed by the ids in increasing
  order), used to instantiate the parameter at concrete inputs. It is not Roaring's format.
\<close>

definition list_bm_write :: "idInt set \<Rightarrow> bytes" where
  "list_bm_write s =
     (let xs = sorted_list_of_set s in le32 (of_nat (length xs)) @ concat (map le32 xs))"

definition list_bm_read :: "bytes \<Rightarrow> idInt set option" where
  "list_bm_read bs =
     (if length bs < 4 then None
      else
        let n = unat (rd_le32 (take 4 bs)) in
        if length bs < 4 + 4 * n then None
        else Some (set (map (\<lambda>i. rd_le32 (take 4 (drop (4 + 4 * i) bs))) [0..<n])))"

definition list_codec :: bitmap_codec where
  "list_codec = \<lparr>bm_write = list_bm_write, bm_read = list_bm_read\<rparr>"

section \<open>Sample buckets\<close>

definition demo_bucket :: Bucket where
  "demo_bucket = \<lparr>base_value = 100, deltas = [5, 10], ids = [1, 2], summary_bitmap = {1, 2},
                   is_dirty = False\<rparr>"

definition big_bucket :: Bucket where
  "big_bucket = \<lparr>base_value = 42, deltas = replicate 65536 0, ids = map of_nat [0..<65536],
                  summary_bitmap = set (map of_nat [0..<65536]), is_dirty = False\<rparr>"

section \<open>Declared sizes that exceed the buffer\<close>

text \<open>
  The three ways the sizes declared in a payload can run past its end: the bitmap, the
  count field, or the \<open>count\<close> deltas and ids.
\<close>

definition declared_overrun :: "bytes \<Rightarrow> bool" where
  "declared_overrun data =
     (let len = length data;
          bm_size = unat (rd_le32 (take 4 data));
          count = unat (rd_le16 (take 2 (drop (4 + bm_size) data)))
      in 4 + bm_size > len \<or> 4 + bm_size + 2 > len \<or> 4 + bm_size + 2 + 2 * count + 4 * count > len)"

section \<open>Field names\<close>

text \<open>
  A bucket key is the field name, a colon and four bytes, and the code recognises the keys
  of a field by the prefix "field:". Field names without a colon are the ones for which that
  prefix identifies the field (section 4.3 of the specification restricts field names).
\<close>

definition wf_field :: "bytes \<Rightarrow> bool" where
  "wf_field f \<longleftrightarrow> colon \<notin> set f"

text \<open>Reading a decimal number back (to show that \<open>to_string\<close> is injective).\<close>

definition from_string :: "bytes \<Rightarrow> nat" where
  "from_string bs = foldl (\<lambda>a d. 10 * a + (unat d - 48)) 0 bs"

section \<open>Entries of a bucket\<close>

text \<open>The (delta, id) pairs of a bucket, in array order.\<close>

definition bucket_entries :: "Bucket \<Rightarrow> (u16 \<times> idInt) list" where
  "bucket_entries b = zip (deltas b) (ids b)"

text \<open>The value an entry stands for.\<close>

definition entry_value :: "u32 \<Rightarrow> u16 \<Rightarrow> u32" where
  "entry_value base d = base + ucast d"

text \<open>What \<open>Bucket::add\<close> does to the pairs: the new pair goes to the lower-bound position.\<close>

definition ins_entry :: "u16 \<times> idInt \<Rightarrow> (u16 \<times> idInt) list \<Rightarrow> (u16 \<times> idInt) list" where
  "ins_entry e es =
     (let k = lower_bound (map fst es) (fst e) in take k es @ e # drop k es)"

text \<open>Entries with their deltas re-expressed against a base that is \<open>dk\<close> higher.\<close>

definition shift_entries :: "u16 \<Rightarrow> (u16 \<times> idInt) list \<Rightarrow> (u16 \<times> idInt) list" where
  "shift_entries dk es = map (\<lambda>(d, rid). (d - dk, rid)) es"

section \<open>Value boundaries\<close>

text \<open>
  \<open>run_eq ds lo hi\<close>: every index from \<open>lo\<close> up to, excluding, \<open>hi\<close> holds the same delta as
  its left neighbour. \<open>is_cut ds k\<close>: index \<open>k\<close> starts a new value.
\<close>

definition run_eq :: "u16 list \<Rightarrow> nat \<Rightarrow> nat \<Rightarrow> bool" where
  "run_eq ds lo hi \<longleftrightarrow> (\<forall>j. lo \<le> j \<and> j < hi \<longrightarrow> 0 < j \<and> ds ! j = ds ! (j - 1))"

definition is_cut :: "u16 list \<Rightarrow> nat \<Rightarrow> bool" where
  "is_cut ds k \<longleftrightarrow> 0 < k \<and> k < length ds \<and> ds ! k \<noteq> ds ! (k - 1)"

text \<open>A saturated bucket of two values, 512 entries each.\<close>

definition split_bucket :: Bucket where
  "split_bucket = \<lparr>base_value = 1000, deltas = replicate 512 0 @ replicate 512 7,
                    ids = map of_nat [0..<1024], summary_bitmap = set (map of_nat [0..<1024]),
                    is_dirty = False\<rparr>"


chapter \<open>Verification\<close>

section \<open>Sortable keys\<close>

lemma sdb31: "signed_drop_bit 31 (i::u32) = (if bit i 31 then - 1 else 0)"
  by (rule bit_word_eqI) (auto simp add: bit_simps Suc_le_eq dest: bit_imp_le_length)

lemma db31: "drop_bit 31 (i::u32) = (if bit i 31 then 1 else 0)"
  apply (rule bit_word_eqI)
  subgoal for n by (cases n) (auto simp add: bit_simps dest: bit_imp_le_length)
  done

lemma bit31_top_int: "bit (2147483648::int) n \<longleftrightarrow> n = 31"
proof -
  have "(2147483648::int) = 2 ^ 31" by simp
  then show ?thesis by (simp only: bit_exp_iff) auto
qed

lemma top_eq: "(0x80000000::u32) = 2 ^ 31" by simp

lemma bit31_top: "bit (0x80000000::u32) n \<longleftrightarrow> n = 31"
  by (subst top_eq, simp only: bit_exp_iff) auto

lemma fts_cases: "float_to_sortable i = (if bit i 31 then NOT i else i XOR 0x80000000)"
  by (simp add: float_to_sortable_def sdb31 Let_def)

lemma stf_cases: "sortable_to_float i = (if bit i 31 then i XOR 0x80000000 else NOT i)"
  by (simp add: sortable_to_float_def db31 Let_def)

lemma rt: "sortable_to_float (float_to_sortable i) = i"
  by (simp add: fts_cases stf_cases bit_simps bit31_top xor.assoc del: bit_0)

lemma unat_top_iff: "bit (w::u32) 31 \<longleftrightarrow> 2^31 \<le> unat w"
proof -
  have lt: "unat w < 2^32" using unsigned_less[of w, where 'a=nat] by simp
  have "bit w 31 = bit (unat w) 31" by (simp add: bit_unsigned_iff)
  also have "\<dots> = odd (unat w div 2^31)" by (simp add: bit_iff_odd)
  also have "\<dots> = (2^31 \<le> unat w)"
  proof (cases "2^31 \<le> unat w")
    case True
    then have "unat w div 2^31 = 1" using lt by simp
    then show ?thesis using True by simp
  next
    case False
    then have "unat w div 2^31 = 0" by simp
    then show ?thesis using False by simp
  qed
  finally show ?thesis .
qed

lemma unat_not32: "unat (NOT (w::u32)) = 2^32 - 1 - unat w"
proof -
  have "NOT w = - 1 - w" by (simp add: not_eq_complement)
  moreover have "unat (- 1 - w) = unat (- 1 :: u32) - unat w"
    by (rule unat_sub) simp
  moreover have "unat (- 1 :: u32) = 2^32 - 1" by (simp add: unsigned_minus_1_eq_mask mask_eq_exp_minus_1)
  ultimately show ?thesis by simp
qed

lemma unat_flip_lo:
  assumes "\<not> bit (w::u32) 31" shows "unat (w XOR 0x80000000) = unat w + 2^31"
proof -
  have "w + 0x80000000 = w XOR 0x80000000"
    by (rule disjunctive_add_eq_xor, rule bit_word_eqI) (use assms in \<open>auto simp: bit_simps bit31_top bit31_top_int\<close>)
  moreover have "unat (w + 0x80000000) = unat w + unat (0x80000000::u32)"
    using assms by (subst unat_add_lem[THEN iffD1]) (auto simp: unat_top_iff)
  ultimately show ?thesis by simp
qed

lemma unat_flip_hi:
  assumes "bit (w::u32) 31" shows "unat (w XOR 0x80000000) = unat w - 2^31"
proof -
  let ?v = "w XOR 0x80000000"
  have nb: "\<not> bit ?v 31" using assms by (simp add: bit_simps bit31_top)
  have "unat (?v XOR 0x80000000) = unat ?v + 2^31" by (rule unat_flip_lo[OF nb])
  moreover have "?v XOR 0x80000000 = w" by (simp add: xor.assoc)
  ultimately show ?thesis by simp
qed

lemma sint_cases32: "sint (w::u32) = (if bit w 31 then int (unat w) - 2^32 else int (unat w))"
proof -
  have tb: "take_bit 32 (uint w) = uint w"
    using uint_lt2p[of w] by (simp only: take_bit_int_eq_self_iff) simp
  have b: "bit (uint w) 31 = bit w 31" by (simp add: bit_uint_iff)
  have "sint w = signed_take_bit 31 (uint w)"
    by (simp only: sint_uint) simp
  also have "\<dots> = take_bit (Suc 31) (uint w) - 2 ^ Suc 31 * of_bool (bit (uint w) 31)"
    by (rule signed_take_bit_eq_take_bit_minus)
  also have "\<dots> = uint w - 2 ^ 32 * of_bool (bit w 31)"
    using tb b by simp
  finally show ?thesis by (simp add: uint_nat del: of_nat_unat)
qed

lemma mag_gen_step:
  assumes p: "0 < p" shows "mag_gen p n < mag_gen p (Suc n)"
proof -
  define e where "e = n div p"
  define m where "m = n mod p"
  have mp: "m < p" using p by (simp add: m_def)
  show ?thesis
  proof (cases "Suc m = p")
    case True
    have r: "Suc n mod p = 0" unfolding mod_Suc m_def[symmetric] using True by simp
    have d: "Suc n div p = Suc e" unfolding div_Suc r e_def[symmetric] by simp
    have pm: "p + m = 2 * p - 1" using True by linarith
    show ?thesis
    proof (cases e)
      case 0
      then show ?thesis unfolding mag_gen_def r d e_def[symmetric] m_def[symmetric] using mp by simp
    next
      case (Suc e')
      have "(2 * p - 1) * 2 ^ e' < (2 * p) * 2 ^ e'" using p by simp
      then show ?thesis unfolding mag_gen_def r d e_def[symmetric] m_def[symmetric] pm Suc by simp
    qed
  next
    case False
    have r: "Suc n mod p = Suc m" unfolding mod_Suc m_def[symmetric] using False by simp
    have d: "Suc n div p = e" unfolding div_Suc r e_def[symmetric] by simp
    show ?thesis unfolding mag_gen_def r d e_def[symmetric] m_def[symmetric] by simp
  qed
qed

lemma mag_gen_less_iff: "0 < p \<Longrightarrow> mag_gen p a < mag_gen p b \<longleftrightarrow> a < b"
proof -
  assume "0 < p"
  then have "strict_mono (mag_gen p)" by (intro strict_mono_Suc_iff[THEN iffD2] allI mag_gen_step)
  then show ?thesis by (rule strict_mono_less)
qed

lemma mag_gen_zero_iff: "0 < p \<Longrightarrow> mag_gen p a = 0 \<longleftrightarrow> a = 0"
proof -
  assume p: "0 < p"
  have z: "mag_gen p 0 = 0" using p by (simp add: mag_gen_def)
  show ?thesis using mag_gen_less_iff[OF p, of 0 a] z by (cases "a = 0") auto
qed

lemma float_magnitude_mag_gen: "float_magnitude w = mag_gen (2 ^ 23) (unat w mod 2 ^ 31)"
proof -
  have lt: "unat w < 2 ^ 32" using unsigned_less[of w, where 'a=nat] by simp
  have "(2::nat) ^ 31 = 2 ^ 23 * 256" by simp
  then have e: "(unat w mod 2 ^ 31) div 2 ^ 23 = (unat w div 2 ^ 23) mod 256"
    by (simp only: mod_mult2_eq) simp
  have "(2::nat) ^ 23 dvd 2 ^ 31" by (rule le_imp_power_dvd) simp
  then have m: "(unat w mod 2 ^ 31) mod 2 ^ 23 = unat w mod 2 ^ 23"
    by (rule mod_mod_cancel)
  show ?thesis
    unfolding float_magnitude_def float_exponent_def float_mantissa_def mag_gen_def e m ..
qed

lemma unat_fts: "unat (float_to_sortable w) =
  (if bit w 31 then 2 ^ 31 - 1 - unat w mod 2 ^ 31 else 2 ^ 31 + unat w mod 2 ^ 31)"
proof -
  have lt: "unat w < 2 ^ 32" using unsigned_less[of w, where 'a=nat] by simp
  show ?thesis
  proof (cases "bit w 31")
    case True
    then have ge: "2 ^ 31 \<le> unat w" by (simp add: unat_top_iff)
    then have "unat w mod 2 ^ 31 = unat w - 2 ^ 31"
      using lt by (simp add: mod_if le_mod_geq)
    then show ?thesis using True ge lt by (simp add: fts_cases unat_not32)
  next
    case False
    then have "unat w < 2 ^ 31" by (simp add: unat_top_iff)
    then show ?thesis using False by (simp add: fts_cases unat_flip_lo)
  qed
qed

lemma float_value_alt: "float_value w =
  (if bit w 31 then - int (mag_gen (2 ^ 23) (unat w mod 2 ^ 31))
   else int (mag_gen (2 ^ 23) (unat w mod 2 ^ 31)))"
  by (simp add: float_value_def float_sign_def float_magnitude_mag_gen)

lemma low_zero_iff: "unat (w::u32) mod 2 ^ 31 = 0 \<longleftrightarrow> w = 0 \<or> w = 0x80000000"
proof -
  have lt: "unat w < 2 ^ 32" using unsigned_less[of w, where 'a=nat] by simp
  have "unat w mod 2 ^ 31 = 0 \<longleftrightarrow> unat w = 0 \<or> unat w = 2 ^ 31"
  proof (cases "unat w < 2 ^ 31")
    case True then show ?thesis by simp
  next
    case False
    then have "unat w mod 2 ^ 31 = unat w - 2 ^ 31" using lt by (simp add: le_mod_geq)
    then show ?thesis using False by auto
  qed
  also have "\<dots> \<longleftrightarrow> w = 0 \<or> w = 0x80000000"
    by (simp add: word_unat_eq_iff)
  finally show ?thesis .
qed

lemma float_order:
  "float_to_sortable a < float_to_sortable b \<longleftrightarrow>
     float_less a b \<or> (a = 0x80000000 \<and> b = 0)"
proof -
  let ?ua = "unat a mod 2 ^ 31" and ?ub = "unat b mod 2 ^ 31"
  have p: "(0::nat) < 2 ^ 23" by simp
  have la: "?ua < 2 ^ 31" and lb: "?ub < 2 ^ 31" by simp_all
  have mono: "mag_gen 8388608 x < mag_gen 8388608 y \<longleftrightarrow> x < y" for x y
    using mag_gen_less_iff[of "2 ^ 23" x y] by simp
  have zero: "mag_gen 8388608 x = 0 \<longleftrightarrow> x = 0" for x
    using mag_gen_zero_iff[of "2 ^ 23" x] by simp
  consider (pp) "\<not> bit a 31" "\<not> bit b 31" | (nn) "bit a 31" "bit b 31"
    | (np) "bit a 31" "\<not> bit b 31" | (pn) "\<not> bit a 31" "bit b 31" by blast
  then show ?thesis
  proof cases
    case pp
    then have "a \<noteq> 0x80000000" by (auto simp: bit31_top)
    then show ?thesis using pp
      by (simp add: word_less_nat_alt unat_fts float_less_def float_value_alt mono)
  next
    case nn
    then have "b \<noteq> 0" by auto
    then show ?thesis using nn la lb
      by (simp add: word_less_nat_alt unat_fts float_less_def float_value_alt mono) linarith
  next
    case np
    have "float_less a b \<or> (a = 0x80000000 \<and> b = 0)"
    proof (cases "?ua = 0 \<and> ?ub = 0")
      case True
      note za = True[THEN conjunct1, unfolded low_zero_iff]
        and zb = True[THEN conjunct2, unfolded low_zero_iff]
      have na: "a \<noteq> 0" using np by auto
      have nb: "b \<noteq> 0x80000000" using np by (auto simp: bit31_top)
      from za na have "a = 0x80000000" by simp
      moreover from zb nb have "b = 0" by simp
      ultimately show ?thesis by simp
    next
      case False
      then have "mag_gen 8388608 ?ua \<noteq> 0 \<or> mag_gen 8388608 ?ub \<noteq> 0"
        by (simp add: zero)
      then show ?thesis using np by (auto simp: float_less_def float_value_alt)
    qed
    moreover have "float_to_sortable a < float_to_sortable b"
      using np la lb by (simp add: word_less_nat_alt unat_fts)
    ultimately show ?thesis by simp
  next
    case pn
    then have "a \<noteq> 0x80000000" by (auto simp: bit31_top)
    moreover have "\<not> float_to_sortable a < float_to_sortable b"
      using pn la lb by (simp add: word_less_nat_alt unat_fts)
    moreover have "\<not> float_less a b" using pn by (simp add: float_less_def float_value_alt)
    ultimately show ?thesis by simp
  qed
qed

lemma int_rt: "sortable_to_int (int_to_sortable i) = i"
  by (simp add: sortable_to_int_def int_to_sortable_def xor.assoc)



lemma int_order: "int_to_sortable a < int_to_sortable b \<longleftrightarrow> sint a < sint b"
proof -
  define x where "x = unat a"
  define y where "y = unat b"
  have la: "x < 2 ^ 32" unfolding x_def using unsigned_less[of a, where 'a=nat] by simp
  have lb: "y < 2 ^ 32" unfolding y_def using unsigned_less[of b, where 'a=nat] by simp
  have u: "unat (int_to_sortable w) = (if 2 ^ 31 \<le> unat w then unat w - 2 ^ 31 else unat w + 2 ^ 31)" for w
    using unat_flip_lo[of w] unat_flip_hi[of w] by (auto simp: int_to_sortable_def unat_top_iff)
  have s: "sint w = (if 2 ^ 31 \<le> unat w then int (unat w) - 2 ^ 32 else int (unat w))" for w :: u32
    unfolding sint_cases32 unat_top_iff ..
  have "int_to_sortable a < int_to_sortable b \<longleftrightarrow>
      (if 2 ^ 31 \<le> x then x - 2 ^ 31 else x + 2 ^ 31) < (if 2 ^ 31 \<le> y then y - 2 ^ 31 else y + 2 ^ 31)"
    unfolding word_less_nat_alt u x_def y_def ..
  moreover have "sint a < sint b \<longleftrightarrow>
      (if 2 ^ 31 \<le> x then int x - 2 ^ 32 else int x) < (if 2 ^ 31 \<le> y then int y - 2 ^ 32 else int y)"
    unfolding s x_def y_def ..
  ultimately show ?thesis using la lb
    by (cases "2 ^ 31 \<le> x"; cases "2 ^ 31 \<le> y") (simp_all, arith)
qed

text \<open>
  C5 (as amended). The decoders invert the encoders bit for bit (for every bit pattern, so
  in particular for every finite float and every int32), \<open>int_to_sortable\<close> maps the
  signed order to the unsigned order, and on finite floats \<open>float_to_sortable\<close> maps the
  numeric order to the unsigned order except at the two zeros: \<open>-0.0\<close> and \<open>+0.0\<close> are
  numerically equal, yet the code of \<open>-0.0\<close> is strictly below the code of \<open>+0.0\<close>.
\<close>

theorem sortable_codec_roundtrip_order:
  "(float_is_finite f \<longrightarrow> sortable_to_float (float_to_sortable f) = f) \<and>
   (float_is_finite a \<and> float_is_finite b \<longrightarrow>
      (float_to_sortable a < float_to_sortable b \<longleftrightarrow>
         float_less a b \<or> (a = float_neg_zero \<and> b = float_pos_zero))) \<and>
   sortable_to_int (int_to_sortable i) = i \<and>
   (int_to_sortable x < int_to_sortable y \<longleftrightarrow> sint x < sint y)"
  by (simp add: rt float_order int_rt int_order float_neg_zero_def float_pos_zero_def)

theorem sortable_codec_roundtrip_order_witness:
  "float_is_finite 0x3F800000 \<and>
   sortable_to_float (float_to_sortable 0x3F800000) = 0x3F800000 \<and>
   float_is_finite 0xBFC00000 \<and> float_is_finite 0x3F000000 \<and>
   float_to_sortable 0xBFC00000 < float_to_sortable 0x3F000000 \<and>
   float_less 0xBFC00000 0x3F000000 \<and>
   sortable_to_int (int_to_sortable 0xFFFFFFFF) = 0xFFFFFFFF \<and>
   int_to_sortable 0xFFFFFFFF < int_to_sortable 1 \<and> sint (0xFFFFFFFF :: u32) < sint (1 :: u32)"
  using sortable_codec_roundtrip_order [of "0x3F800000" "0xBFC00000" "0x3F000000" "0xFFFFFFFF"
      "0xFFFFFFFF" 1]
  by (simp add: float_is_finite_def float_exponent_def float_less_def float_value_def
      float_sign_def float_magnitude_def float_mantissa_def float_neg_zero_def
      float_pos_zero_def float_to_sortable_def int_to_sortable_def)

text \<open>
  C5 as stated fails: both zeros are finite and \<open>-0.0 < +0.0\<close> is false, but the codes are
  ordered strictly.
\<close>

theorem float_order_zero_counterexample:
  "float_is_finite float_neg_zero \<and> float_is_finite float_pos_zero \<and>
   \<not> (float_to_sortable float_neg_zero < float_to_sortable float_pos_zero \<longleftrightarrow>
        float_less float_neg_zero float_pos_zero)"
  by (simp add: float_is_finite_def float_exponent_def float_to_sortable_def float_less_def
      float_value_def float_sign_def float_magnitude_def float_mantissa_def
      float_neg_zero_def float_pos_zero_def)


section \<open>Byte order and layout\<close>

lemma length_le16 [simp]: "length (le16 w) = 2" by (simp add: le16_def)

lemma length_le32 [simp]: "length (le32 w) = 4" by (simp add: le32_def)

lemma length_be32 [simp]: "length (be32 w) = 4" by (simp add: be32_def)

lemma rd_le16_le16: "rd_le16 (le16 w @ rest) = w"
proof (rule bit_word_eqI)
  fix n :: nat
  assume "n < LENGTH(16)"
  then consider "n < 8" | "8 \<le> n" "n < 16" by fastforce
  then show "bit (rd_le16 (le16 w @ rest)) n = bit w n"
    unfolding rd_le16_def le16_def by cases (auto simp add: bit_simps nth_append)
qed

lemma rd_le32_le32: "rd_le32 (le32 w @ rest) = w"
proof (rule bit_word_eqI)
  fix n :: nat
  assume "n < LENGTH(32)"
  then consider "n < 8" | "8 \<le> n" "n < 16" | "16 \<le> n" "n < 24" | "24 \<le> n" "n < 32"
    by fastforce
  then show "bit (rd_le32 (le32 w @ rest)) n = bit w n"
    unfolding rd_le32_def le32_def by cases (auto simp add: bit_simps nth_append)
qed

lemma rd_be32_be32: "rd_be32 (be32 w @ rest) = w"
proof (rule bit_word_eqI)
  fix n :: nat
  assume "n < LENGTH(32)"
  then consider "n < 8" | "8 \<le> n" "n < 16" | "16 \<le> n" "n < 24" | "24 \<le> n" "n < 32"
    by fastforce
  then show "bit (rd_be32 (be32 w @ rest)) n = bit w n"
    unfolding rd_be32_def be32_def by cases (auto simp add: bit_simps nth_append)
qed

lemma take4_le32 [simp]: "take 4 (le32 w @ rest) = le32 w" by (simp add: le32_def)

lemma take2_le16 [simp]: "take 2 (le16 w @ rest) = le16 w" by (simp add: le16_def)

lemma rd_le16_le16' [simp]: "rd_le16 (le16 w) = w" using rd_le16_le16[of w "[]"] by simp

lemma rd_le32_le32' [simp]: "rd_le32 (le32 w) = w" using rd_le32_le32[of w "[]"] by simp

lemma rd_be32_be32' [simp]: "rd_be32 (be32 w) = w" using rd_be32_be32[of w "[]"] by simp

lemma length_concat_le16 [simp]: "length (concat (map le16 xs)) = 2 * length xs"
  by (induction xs) auto

lemma length_concat_le32 [simp]: "length (concat (map le32 xs)) = 4 * length xs"
  by (induction xs) auto

lemma drop_concat_le16: "drop (2 * i) (concat (map le16 xs) @ rest) = concat (map le16 (drop i xs)) @ (drop (2 * (i - length xs)) rest)"
proof (induction xs arbitrary: i)
  case Nil then show ?case by simp
next
  case (Cons x xs)
  show ?case
  proof (cases i)
    case 0 then show ?thesis by simp
  next
    case (Suc j)
    then show ?thesis using Cons.IH[of j] by simp
  qed
qed

lemma drop_concat_le32: "drop (4 * i) (concat (map le32 xs) @ rest) = concat (map le32 (drop i xs)) @ (drop (4 * (i - length xs)) rest)"
proof (induction xs arbitrary: i)
  case Nil then show ?case by simp
next
  case (Cons x xs)
  show ?case
  proof (cases i)
    case 0 then show ?thesis by simp
  next
    case (Suc j)
    then show ?thesis using Cons.IH[of j] by simp
  qed
qed

lemma read_le16_at:
  assumes "i < length xs"
  shows "rd_le16 (take 2 (drop (2 * i) (concat (map le16 xs) @ rest))) = xs ! i"
proof -
  have "drop (2 * i) (concat (map le16 xs) @ rest)
        = le16 (xs ! i) @ (concat (map le16 (drop (Suc i) xs)) @ rest)"
    unfolding drop_concat_le16 Cons_nth_drop_Suc[OF assms, symmetric] using assms by simp
  then show ?thesis by (simp only: take2_le16 rd_le16_le16')
qed

lemma read_le32_at:
  assumes "i < length xs"
  shows "rd_le32 (take 4 (drop (4 * i) (concat (map le32 xs) @ rest))) = xs ! i"
proof -
  have "drop (4 * i) (concat (map le32 xs) @ rest)
        = le32 (xs ! i) @ (concat (map le32 (drop (Suc i) xs)) @ rest)"
    unfolding drop_concat_le32 Cons_nth_drop_Suc[OF assms, symmetric] using assms by simp
  then show ?thesis by (simp only: take4_le32 rd_le32_le32')
qed

lemma map_read_le16:
  "map (\<lambda>i. rd_le16 (take 2 (drop (2 * i) (concat (map le16 xs) @ rest)))) [0..<length xs] = xs"
proof (rule nth_equalityI)
  show "length (map (\<lambda>i. rd_le16 (take 2 (drop (2 * i) (concat (map le16 xs) @ rest))))
          [0..<length xs]) = length xs" by simp
next
  fix i
  assume "i < length (map (\<lambda>i. rd_le16 (take 2 (drop (2 * i) (concat (map le16 xs) @ rest))))
          [0..<length xs])"
  then have i: "i < length xs" by simp
  have "map (\<lambda>i. rd_le16 (take 2 (drop (2 * i) (concat (map le16 xs) @ rest)))) [0..<length xs] ! i
        = rd_le16 (take 2 (drop (2 * (0 + i)) (concat (map le16 xs) @ rest)))"
    using i by (intro nth_map_upt) simp
  also have "\<dots> = xs ! i" using read_le16_at[OF i, of rest] by (simp only: add_0)
  finally show "map (\<lambda>i. rd_le16 (take 2 (drop (2 * i) (concat (map le16 xs) @ rest))))
          [0..<length xs] ! i = xs ! i" .
qed

lemma map_read_le32:
  "map (\<lambda>i. rd_le32 (take 4 (drop (4 * i) (concat (map le32 xs) @ rest)))) [0..<length xs] = xs"
proof (rule nth_equalityI)
  show "length (map (\<lambda>i. rd_le32 (take 4 (drop (4 * i) (concat (map le32 xs) @ rest))))
          [0..<length xs]) = length xs" by simp
next
  fix i
  assume "i < length (map (\<lambda>i. rd_le32 (take 4 (drop (4 * i) (concat (map le32 xs) @ rest))))
          [0..<length xs])"
  then have i: "i < length xs" by simp
  have "map (\<lambda>i. rd_le32 (take 4 (drop (4 * i) (concat (map le32 xs) @ rest)))) [0..<length xs] ! i
        = rd_le32 (take 4 (drop (4 * (0 + i)) (concat (map le32 xs) @ rest)))"
    using i by (intro nth_map_upt) simp
  also have "\<dots> = xs ! i" using read_le32_at[OF i, of rest] by (simp only: add_0)
  finally show "map (\<lambda>i. rd_le32 (take 4 (drop (4 * i) (concat (map le32 xs) @ rest))))
          [0..<length xs] ! i = xs ! i" .
qed

lemma unat_of_nat_u16: "unat (of_nat n :: u16) = n mod 65536"
  by (simp add: unat_of_nat)

lemma unat_of_nat_u32: "n < 2 ^ 32 \<Longrightarrow> unat (of_nat n :: u32) = n"
  by (simp add: unat_of_nat)

lemma serialize_layout:
  assumes ok: "codec_ok cd (summary_bitmap b)"
  shows "Bucket_serialize cd b =
     le32 (of_nat (length (bm_write cd (summary_bitmap b))))
     @ bm_write cd (summary_bitmap b)
     @ le16 (of_nat (length (ids b)))
     @ concat (map le16 (take (length (ids b) mod 65536) (deltas b)))
     @ concat (map le32 (take (length (ids b) mod 65536) (ids b)))"
proof -
  have z: "(of_nat (length (ids b)) :: u16) = 0 \<Longrightarrow> length (ids b) mod 65536 = 0"
    using unat_of_nat_u16[of "length (ids b)"] by simp
  show ?thesis
    unfolding Bucket_serialize_def Let_def
    by (auto simp add: unat_of_nat_u16 word_greater_zero_iff dest: z)
qed

lemma deserialize_layout:
  fixes bm :: bytes and ds :: "u16 list" and rs :: "idInt list"
  assumes L: "length bm < 2 ^ 32"
    and rd: "bm \<noteq> [] \<Longrightarrow> bm_read cd (bm @ le16 (of_nat m) @ concat (map le16 ds) @ concat (map le32 rs)) = Some s"
    and emp: "bm = [] \<Longrightarrow> s = {}"
    and m: "m < 65536" and lds: "length ds = m" and lis: "length rs = m"
  shows "Bucket_deserialize cd
           (le32 (of_nat (length bm)) @ bm @ le16 (of_nat m) @ concat (map le16 ds) @ concat (map le32 rs))
           base
         = Inr \<lparr>base_value = base, deltas = ds, ids = rs, summary_bitmap = s, is_dirty = False\<rparr>"
proof -
  let ?tail2 = "concat (map le32 rs)"
  let ?tail1 = "concat (map le16 ds) @ ?tail2"
  let ?tail0 = "le16 (of_nat m) @ ?tail1"
  let ?data = "le32 (of_nat (length bm)) @ bm @ ?tail0"
  have len: "length ?data = 4 + length bm + 2 + 2 * m + 4 * m" using lds lis by simp
  have bmsz: "unat (rd_le32 (take 4 ?data)) = length bm"
    using L by (simp add: unat_of_nat_u32)
  have d4: "drop 4 ?data = bm @ ?tail0" by simp
  have dp: "drop (4 + length bm) ?data = ?tail0" by simp
  have cnt: "unat (rd_le16 (take 2 (drop (4 + length bm) ?data))) = m"
    unfolding dp using m by (simp add: unat_of_nat_u16)
  have dq: "drop (4 + length bm + 2 + k) ?data = drop k ?tail1" for k by simp
  have dr: "drop (4 + length bm + 2 + m * 2 + k) ?data = drop k ?tail2" for k
    using lds by simp
  have rdbm: "(if 0 < length bm then bm_read cd (drop 4 ?data) else Some {}) = Some s"
    unfolding d4 using rd emp by auto
  have D: "map (\<lambda>i. rd_le16 (take 2 (drop (4 + length bm + 2 + 2 * i) ?data))) [0..<m] = ds"
    unfolding dq using map_read_le16[of ds ?tail2] lds by simp
  have I: "map (\<lambda>i. rd_le32 (take 4 (drop (4 + length bm + 2 + m * 2 + 4 * i) ?data))) [0..<m] = rs"
    unfolding dr using map_read_le32[of rs "[]"] lis by simp
  show ?thesis
    unfolding Bucket_deserialize_def Let_def bmsz cnt rdbm D I len
    using lds lis by (auto simp add: new_bucket_def)
qed

lemma deserialize_serialize:
  assumes eq: "length (deltas b) = length (ids b)"
    and ok: "codec_ok cd (summary_bitmap b)"
  shows "Bucket_deserialize cd (Bucket_serialize cd b) base =
     Inr \<lparr>base_value = base,
          deltas = take (length (ids b) mod 65536) (deltas b),
          ids = take (length (ids b) mod 65536) (ids b),
          summary_bitmap = summary_bitmap b, is_dirty = False\<rparr>"
proof -
  let ?m = "length (ids b) mod 65536"
  have c: "(of_nat (length (ids b)) :: u16) = of_nat ?m"
    by (simp add: word_unat_eq_iff unat_of_nat_u16)
  have le: "?m \<le> length (ids b)" by simp
  show ?thesis
    unfolding serialize_layout[OF ok] c
    apply (rule deserialize_layout)
    using ok eq le by (auto simp: codec_ok_def)
qed

lemma serialize_count_field:
  assumes ok: "codec_ok cd (summary_bitmap b)"
  shows "rd_le16 (take 2 (drop (4 + length (bm_write cd (summary_bitmap b))) (Bucket_serialize cd b)))
         = of_nat (length (ids b))"
  unfolding serialize_layout[OF ok] by simp

lemma list_codec_ok:
  assumes "card s < 2 ^ 29"
  shows "codec_ok list_codec s"
proof -
  let ?xs = "sorted_list_of_set s"
  have fin: "finite s" by simp
  have len: "length ?xs = card s" by simp
  have set: "set ?xs = s" using fin by simp
  have n: "unat (of_nat (length ?xs) :: u32) = length ?xs"
    using assms by (simp add: unat_of_nat_u32)
  have rd: "list_bm_read (list_bm_write s @ rest) = Some s" for rest
  proof -
    have d: "drop (4 + k) (le32 (of_nat (length ?xs)) @ concat (map le32 ?xs) @ rest)
             = drop k (concat (map le32 ?xs) @ rest)" for k by simp
    have "map (\<lambda>i. rd_le32 (take 4 (drop (4 + 4 * i)
             (le32 (of_nat (length ?xs)) @ concat (map le32 ?xs) @ rest)))) [0..<length ?xs] = ?xs"
      unfolding d by (rule map_read_le32)
    then show ?thesis
      unfolding list_bm_read_def list_bm_write_def Let_def
      using n set by (simp del: sorted_list_of_set.set_sorted_key_list_of_set length_sorted_list_of_set)
  qed
  show ?thesis
    unfolding codec_ok_def
    using assms rd by (simp add: list_codec_def list_bm_write_def Let_def le32_def)
qed


section \<open>Bucket::add\<close>

lemma lower_bound_take: "takeWhile (\<lambda>x. x < d) xs = take (lower_bound xs d) xs"
  unfolding lower_bound_def by (rule takeWhile_eq_take)

lemma lower_bound_drop: "dropWhile (\<lambda>x. x < d) xs = drop (lower_bound xs d) xs"
  unfolding lower_bound_def by (rule dropWhile_eq_drop)

lemma lower_bound_le: "lower_bound xs d \<le> length xs"
  by (simp add: lower_bound_def length_takeWhile_le)

lemma lower_bound_before: "x \<in> set (take (lower_bound xs d) xs) \<Longrightarrow> x < d"
  unfolding lower_bound_take[symmetric] by (rule set_takeWhileD[THEN conjunct2])

lemma lower_bound_after:
  assumes "sorted xs" "x \<in> set (drop (lower_bound xs d) xs)"
  shows "d \<le> x"
proof -
  let ?r = "dropWhile (\<lambda>x. x < d) xs"
  have x: "x \<in> set ?r" using assms(2) by (simp add: lower_bound_drop)
  have ne: "?r \<noteq> []"
  proof
    assume "?r = []"
    with x show False by (simp only: list.set empty_iff)
  qed
  have h: "\<not> hd ?r < d" by (rule hd_dropWhile[OF ne])
  have "sorted ?r" using assms(1) by (simp add: sorted_dropWhile)
  then have "hd ?r \<le> x" using x ne by (cases ?r) auto
  then show ?thesis using h by simp
qed

lemma sorted_insert_at_lower_bound:
  assumes "sorted xs"
  shows "sorted (take (lower_bound xs d) xs @ d # drop (lower_bound xs d) xs)"
proof -
  have "x \<le> y" if "x \<in> set (take (lower_bound xs d) xs)" "y \<in> set (drop (lower_bound xs d) xs)"
    for x y
    using lower_bound_before[OF that(1)] lower_bound_after[OF assms that(2)] by simp
  then show ?thesis
    using assms lower_bound_before[of _ xs d] lower_bound_after[OF assms, of _ d]
    by (auto simp add: sorted_append sorted_wrt_take sorted_wrt_drop less_imp_le)
qed

lemma unat_delta:
  assumes "\<not> v < base" "\<not> v - base > (65535 :: u32)"
  shows "unat (ucast (v - base) :: u16) = unat v - unat base"
proof -
  have "unat (v - base) = unat v - unat base" using assms(1) by (simp add: unat_sub)
  moreover have "unat (v - base) \<le> 65535" using assms(2) by (simp add: word_le_nat_alt not_less)
  ultimately show ?thesis by (simp add: unsigned_ucast_eq take_bit_nat_eq_self)
qed

text \<open>
  C8. \<open>Bucket::add\<close> raises exactly when \<open>value < base_value\<close> or
  \<open>value - base_value > 65535\<close>, and what it raises is an invariant violation. Otherwise
  it returns the bucket with the delta \<open>value - base_value\<close> inserted at the lower-bound
  position \<open>k\<close> (every delta before it is smaller; on a sorted bucket every delta after
  it is at least as large, so the deltas stay non-decreasing), the id inserted at the same
  position of \<open>ids\<close>, and the id added to the summary bitmap.
\<close>

theorem bucket_add_spec:
  "((\<exists>e. Bucket_add b v rid = Inl e) \<longleftrightarrow> (v < base_value b \<or> v - base_value b > 65535)) \<and>
   (\<forall>e. Bucket_add b v rid = Inl e \<longrightarrow> is_invariant_violation e) \<and>
   (\<not> v < base_value b \<and> \<not> v - base_value b > 65535 \<longrightarrow>
      (\<exists>b' d k. Bucket_add b v rid = Inr b' \<and>
         unat d = unat v - unat (base_value b) \<and>
         k = lower_bound (deltas b) d \<and> k \<le> length (deltas b) \<and>
         deltas b' = take k (deltas b) @ d # drop k (deltas b) \<and>
         ids b' = take k (ids b) @ rid # drop k (ids b) \<and>
         summary_bitmap b' = insert rid (summary_bitmap b) \<and>
         base_value b' = base_value b \<and>
         (\<forall>x \<in> set (take k (deltas b)). x < d) \<and>
         (sorted (deltas b) \<longrightarrow> (\<forall>x \<in> set (drop k (deltas b)). d \<le> x) \<and> sorted (deltas b'))))"
proof -
  have 1: "(\<exists>e. Bucket_add b v rid = Inl e) \<longleftrightarrow> (v < base_value b \<or> v - base_value b > 65535)"
    by (auto simp add: Bucket_add_def MAX_DELTA_def Let_def)
  have 2: "\<forall>e. Bucket_add b v rid = Inl e \<longrightarrow> is_invariant_violation e"
    by (auto simp add: Bucket_add_def MAX_DELTA_def Let_def is_invariant_violation_def
        split: if_splits)
  have 3: "\<exists>b' d k. Bucket_add b v rid = Inr b' \<and>
         unat d = unat v - unat (base_value b) \<and>
         k = lower_bound (deltas b) d \<and> k \<le> length (deltas b) \<and>
         deltas b' = take k (deltas b) @ d # drop k (deltas b) \<and>
         ids b' = take k (ids b) @ rid # drop k (ids b) \<and>
         summary_bitmap b' = insert rid (summary_bitmap b) \<and>
         base_value b' = base_value b \<and>
         (\<forall>x \<in> set (take k (deltas b)). x < d) \<and>
         (sorted (deltas b) \<longrightarrow> (\<forall>x \<in> set (drop k (deltas b)). d \<le> x) \<and> sorted (deltas b'))"
    if h: "\<not> v < base_value b" "\<not> v - base_value b > 65535"
  proof -
    let ?d = "ucast (v - base_value b) :: u16"
    let ?k = "lower_bound (deltas b) ?d"
    let ?b' = "b\<lparr>deltas := take ?k (deltas b) @ ?d # drop ?k (deltas b),
                 ids := take ?k (ids b) @ rid # drop ?k (ids b),
                 summary_bitmap := insert rid (summary_bitmap b), is_dirty := True\<rparr>"
    have "Bucket_add b v rid = Inr ?b'"
      using h by (simp add: Bucket_add_def MAX_DELTA_def Let_def)
    moreover have "unat ?d = unat v - unat (base_value b)" by (rule unat_delta[OF h])
    moreover have "?k \<le> length (deltas b)" by (rule lower_bound_le)
    moreover have "\<forall>x \<in> set (take ?k (deltas b)). x < ?d" using lower_bound_before by blast
    moreover have "sorted (deltas b) \<longrightarrow>
        (\<forall>x \<in> set (drop ?k (deltas b)). ?d \<le> x) \<and> sorted (deltas ?b')"
      using lower_bound_after sorted_insert_at_lower_bound by auto
    ultimately show ?thesis by (intro exI[of _ ?b'] exI[of _ ?d] exI[of _ ?k]) simp
  qed
  show ?thesis using 1 2 3 by blast
qed

theorem bucket_add_spec_witness:
  "Bucket_add demo_bucket 107 3 =
     Inr \<lparr>base_value = 100, deltas = [5, 7, 10], ids = [1, 3, 2], summary_bitmap = {3, 1, 2},
          is_dirty = True\<rparr> \<and>
   Bucket_add demo_bucket 99 3 = Inl InsertBelowBase \<and>
   Bucket_add demo_bucket 65636 3 = Inl DeltaOverflow \<and>
   is_invariant_violation InsertBelowBase \<and> is_invariant_violation DeltaOverflow \<and>
   \<not> (107 :: u32) < base_value demo_bucket \<and> \<not> (107 :: u32) - base_value demo_bucket > 65535 \<and>
   sorted (deltas demo_bucket) \<and>
   (\<exists>b'. Bucket_add demo_bucket 107 3 = Inr b' \<and> sorted (deltas b'))"
  using bucket_add_spec [of demo_bucket 107 3]
  by (simp add: demo_bucket_def Bucket_add_def MAX_DELTA_def lower_bound_def
      is_invariant_violation_def)


section \<open>Serialization claims\<close>

text \<open>
  C6. For a bucket whose \<open>deltas\<close> and \<open>ids\<close> are parallel arrays of at most 65535
  entries (as the bucket invariants demand), deserializing the serialized bucket under its
  own base gives back the same ids, deltas and bitmap content, provided the bitmap library
  round-trips the bitmap.
\<close>

theorem serialize_roundtrip:
  assumes "length (deltas b) = length (ids b)"
    and "length (ids b) \<le> 65535"
    and "codec_ok cd (summary_bitmap b)"
  shows "\<exists>b'. Bucket_deserialize cd (Bucket_serialize cd b) (base_value b) = Inr b' \<and>
           ids b' = ids b \<and> deltas b' = deltas b \<and>
           summary_bitmap b' = summary_bitmap b \<and> base_value b' = base_value b"
proof -
  have m: "length (ids b) mod 65536 = length (ids b)" using assms(2) by simp
  show ?thesis
    unfolding deserialize_serialize[OF assms(1,3)] m using assms(1) by simp
qed

theorem serialize_roundtrip_witness:
  "length (deltas demo_bucket) = length (ids demo_bucket) \<and>
   length (ids demo_bucket) \<le> 65535 \<and>
   codec_ok list_codec (summary_bitmap demo_bucket) \<and>
   (\<exists>b'. Bucket_deserialize list_codec (Bucket_serialize list_codec demo_bucket) 100 = Inr b' \<and>
      ids b' = [1, 2] \<and> deltas b' = [5, 10] \<and> summary_bitmap b' = {1, 2})"
proof -
  have c: "codec_ok list_codec (summary_bitmap demo_bucket)"
    by (rule list_codec_ok) (simp add: demo_bucket_def card_insert_if)
  show ?thesis
    using serialize_roundtrip [of demo_bucket list_codec] c by (auto simp add: demo_bucket_def)
qed

text \<open>
  C7 (as amended). A buffer shorter than six bytes does not raise: \<open>deserialize\<close>
  returns an empty bucket with the given base. For a buffer of at least six bytes whose
  declared bitmap size or entry count would read past the end, \<open>deserialize\<close> raises:
  a \<open>Corrupt\<close> error, unless the bitmap library itself raised first while reading the
  bitmap; a bitmap size beyond the buffer is always \<open>Corrupt\<close>.
\<close>

theorem deserialize_errors:
  "(length data < 6 \<longrightarrow>
      Bucket_deserialize cd data base = Inr (new_bucket\<lparr>base_value := base\<rparr>)) \<and>
   (6 \<le> length data \<and> declared_overrun data \<longrightarrow>
      (\<exists>e. Bucket_deserialize cd data base = Inl e \<and> (is_corrupt e \<or> e = BitmapReadFailed))) \<and>
   (6 \<le> length data \<and> 4 + unat (rd_le32 (take 4 data)) > length data \<longrightarrow>
      Bucket_deserialize cd data base = Inl CorruptBitmapSize)"
  by (auto simp add: Bucket_deserialize_def declared_overrun_def Let_def is_corrupt_def
      split: option.splits)

theorem deserialize_errors_witness:
  "length ([] :: bytes) < 6 \<and>
   Bucket_deserialize list_codec [] 7 = Inr (new_bucket\<lparr>base_value := 7\<rparr>) \<and>
   6 \<le> length [9, 0, 0, 0, 0, 0 :: u8] \<and> declared_overrun [9, 0, 0, 0, 0, 0] \<and>
   Bucket_deserialize list_codec [9, 0, 0, 0, 0, 0] 7 = Inl CorruptBitmapSize \<and>
   is_corrupt CorruptBitmapSize"
  using deserialize_errors [of "[]" list_codec 7]
    deserialize_errors [of "[9, 0, 0, 0, 0, 0]" list_codec 7]
  by (simp add: declared_overrun_def rd_le32_def is_corrupt_def Let_def)

text \<open>
  C7 as stated fails: a three-byte buffer is a short read, yet no error is raised.
\<close>

theorem deserialize_short_counterexample:
  "\<forall>cd base. length ([1, 2, 3] :: bytes) < 6 \<and>
     \<not> (\<exists>e. Bucket_deserialize cd [1, 2, 3] base = Inl e)"
  by (simp add: Bucket_deserialize_def Let_def)

text \<open>
  C10. The count field of the payload is \<open>ids.size() mod 2 ^ 16\<close>. For a bucket of more
  than 65535 entries the payload therefore declares a truncated count, and deserializing it
  yields only the first \<open>ids.size() mod 2 ^ 16\<close> entries: fewer than, and different from,
  the original ones.
\<close>

theorem serialize_count_truncation:
  assumes "length (deltas b) = length (ids b)"
    and "length (ids b) > 65535"
    and "codec_ok cd (summary_bitmap b)"
  shows "unat (rd_le16 (take 2 (drop (4 + length (bm_write cd (summary_bitmap b)))
                                   (Bucket_serialize cd b))))
           = length (ids b) mod 2 ^ 16 \<and>
         (\<exists>b'. Bucket_deserialize cd (Bucket_serialize cd b) (base_value b) = Inr b' \<and>
            ids b' = take (length (ids b) mod 2 ^ 16) (ids b) \<and>
            deltas b' = take (length (ids b) mod 2 ^ 16) (deltas b) \<and>
            length (ids b') < length (ids b) \<and> ids b' \<noteq> ids b)"
proof -
  let ?m = "length (ids b) mod 65536"
  have lt: "?m < length (ids b)" using assms(2) by (simp add: less_le_trans[of _ 65536])
  have "take ?m (ids b) \<noteq> ids b"
  proof
    assume "take ?m (ids b) = ids b"
    then have "length (take ?m (ids b)) = length (ids b)" by simp
    then show False using lt by simp
  qed
  then show ?thesis
    unfolding deserialize_serialize[OF assms(1,3)] serialize_count_field[OF assms(3)]
    using lt by (simp add: unat_of_nat_u16)
qed

theorem serialize_count_truncation_witness:
  "length (deltas big_bucket) = length (ids big_bucket) \<and>
   length (ids big_bucket) > 65535 \<and>
   codec_ok list_codec (summary_bitmap big_bucket) \<and>
   (\<exists>b'. Bucket_deserialize list_codec (Bucket_serialize list_codec big_bucket) 42 = Inr b' \<and>
      ids b' = [] \<and> deltas b' = [])"
proof -
  have "card (summary_bitmap big_bucket) \<le> length (map (of_nat :: nat \<Rightarrow> idInt) [0..<65536])"
    unfolding big_bucket_def by (simp only: Bucket.simps card_length)
  then have c: "codec_ok list_codec (summary_bitmap big_bucket)"
    by (intro list_codec_ok) simp
  have l: "length (ids big_bucket) = 65536" by (simp add: big_bucket_def)
  have d: "length (deltas big_bucket) = 65536" by (simp add: big_bucket_def)
  have b: "base_value big_bucket = 42" by (simp add: big_bucket_def)
  show ?thesis
    using serialize_count_truncation [of big_bucket list_codec] c
    unfolding l d b by auto
qed


section \<open>Keys and their order\<close>

lemma append_less_cancel: "(p :: 'a::linorder list) @ x < p @ y \<longleftrightarrow> x < y"
  by (induction p) auto

lemma append_le_cancel: "(p :: 'a::linorder list) @ x \<le> p @ y \<longleftrightarrow> x \<le> y"
  by (induction p) auto

lemma prefix_convex:
  fixes k1 k2 k3 :: "'a::linorder list"
  assumes "take n k1 = p" "take n k3 = p" "length p = n" "k1 \<le> k2" "k2 \<le> k3"
  shows "take n k2 = p"
  using assms
proof (induction p arbitrary: n k1 k2 k3)
  case Nil
  then show ?case by simp
next
  case (Cons a p)
  then obtain m where n: "n = Suc m" by (cases n) auto
  from Cons.prems n obtain k1' where k1: "k1 = a # k1'" "take m k1' = p"
    by (cases k1) auto
  from Cons.prems n obtain k3' where k3: "k3 = a # k3'" "take m k3' = p"
    by (cases k3) auto
  from Cons.prems(4) k1 obtain c k2' where k2: "k2 = c # k2'" by (cases k2) auto
  from Cons.prems(4,5) k1 k3 k2 have c: "c = a" by auto
  with Cons.prems(4,5) k1 k3 k2 have "k1' \<le> k2'" "k2' \<le> k3'" by auto
  from Cons.IH[OF k1(2) k3(2) _ this] Cons.prems(3) n have "take m k2' = p" by simp
  then show ?case using n k2 c by simp
qed

lemma unat_be_bytes:
  "unat (w :: u32) = unat (ucast (drop_bit 24 w) :: u8) * 2 ^ 24 + unat (ucast (drop_bit 16 w) :: u8) * 2 ^ 16
     + unat (ucast (drop_bit 8 w) :: u8) * 2 ^ 8 + unat (ucast w :: u8)"
proof -
  have lt: "unat w < 2 ^ 32" using unsigned_less[of w, where 'a=nat] by simp
  have b: "unat (ucast (drop_bit k w) :: u8) = unat w div 2 ^ k mod 256" for k
    by (simp add: unsigned_ucast_eq unat_drop_bit_eq take_bit_eq_mod) (simp add: drop_bit_eq_div)
  have b0: "unat (ucast w :: u8) = unat w mod 256"
    by (simp add: unsigned_ucast_eq take_bit_eq_mod)
  define x where "x = unat w"
  have xlt: "x < 2 ^ 32" using lt by (simp add: x_def)
  have e0: "x = x div 2 ^ 8 * 256 + x mod 256"
    using div_mult_mod_eq[of x 256] by simp
  have "x div 2 ^ 8 div 256 = x div 2 ^ 16" by (simp add: div_mult2_eq[symmetric])
  then have e1: "x div 2 ^ 8 = x div 2 ^ 16 * 256 + x div 2 ^ 8 mod 256"
    using div_mult_mod_eq[of "x div 2 ^ 8" 256] by simp
  have "x div 2 ^ 16 div 256 = x div 2 ^ 24" by (simp add: div_mult2_eq[symmetric])
  then have e2: "x div 2 ^ 16 = x div 2 ^ 24 * 256 + x div 2 ^ 16 mod 256"
    using div_mult_mod_eq[of "x div 2 ^ 16" 256] by simp
  have "x div 2 ^ 24 < 256" using xlt by (simp add: less_mult_imp_div_less)
  then have e3: "x div 2 ^ 24 mod 256 = x div 2 ^ 24" by simp
  have "x = x div 2 ^ 24 mod 256 * 2 ^ 24 + x div 2 ^ 16 mod 256 * 2 ^ 16
            + x div 2 ^ 8 mod 256 * 2 ^ 8 + x mod 256"
    unfolding e3 by (subst e0, subst e1, subst e2) simp
  then show ?thesis unfolding b b0 x_def .
qed

lemma byte_lt: "unat (b :: u8) < 256"
  using unsigned_less[of b, where 'a=nat] by simp

lemma be32_less_iff: "be32 a < be32 b \<longleftrightarrow> a < b"
proof -
  define a3 where "a3 = unat (ucast (drop_bit 24 a) :: u8)"
  define a2 where "a2 = unat (ucast (drop_bit 16 a) :: u8)"
  define a1 where "a1 = unat (ucast (drop_bit 8 a) :: u8)"
  define a0 where "a0 = unat (ucast a :: u8)"
  define b3 where "b3 = unat (ucast (drop_bit 24 b) :: u8)"
  define b2 where "b2 = unat (ucast (drop_bit 16 b) :: u8)"
  define b1 where "b1 = unat (ucast (drop_bit 8 b) :: u8)"
  define b0 where "b0 = unat (ucast b :: u8)"
  note defs = a3_def a2_def a1_def a0_def b3_def b2_def b1_def b0_def
  have bounds: "a3 < 256" "a2 < 256" "a1 < 256" "a0 < 256" "b3 < 256" "b2 < 256" "b1 < 256" "b0 < 256"
    unfolding defs by (rule byte_lt)+
  have ua: "unat a = a3 * 2 ^ 24 + a2 * 2 ^ 16 + a1 * 2 ^ 8 + a0"
    unfolding defs by (rule unat_be_bytes)
  have ub: "unat b = b3 * 2 ^ 24 + b2 * 2 ^ 16 + b1 * 2 ^ 8 + b0"
    unfolding defs by (rule unat_be_bytes)
  have "be32 a < be32 b \<longleftrightarrow>
     (a3 < b3 \<or> a3 = b3 \<and> (a2 < b2 \<or> a2 = b2 \<and> (a1 < b1 \<or> a1 = b1 \<and> a0 < b0)))"
    unfolding be32_def defs by (simp add: word_less_nat_alt word_unat_eq_iff)
  also have "\<dots> \<longleftrightarrow> unat a < unat b"
    unfolding ua ub using bounds by auto
  finally show ?thesis by (simp add: word_less_nat_alt)
qed

lemma be32_inj: "be32 a = be32 b \<longleftrightarrow> a = b"
proof
  assume "be32 a = be32 b"
  then have "rd_be32 (be32 a) = rd_be32 (be32 b)" by simp
  then show "a = b" by simp
qed simp

lemma make_bucket_key_less [simp]:
  "make_bucket_key f a < make_bucket_key f b \<longleftrightarrow> a < b"
  unfolding make_bucket_key_def by (simp add: append_less_cancel be32_less_iff del: append_assoc)

lemma make_bucket_key_inj:
  "make_bucket_key f a = make_bucket_key g b \<longleftrightarrow> f = g \<and> a = b"
proof
  assume h: "make_bucket_key f a = make_bucket_key g b"
  then have "length (make_bucket_key f a) = length (make_bucket_key g b)" by simp
  then have l: "length f = length g" by (simp add: make_bucket_key_def)
  from h l show "f = g \<and> a = b" by (simp add: make_bucket_key_def be32_inj)
qed simp

lemma make_bucket_key_le [simp]:
  "make_bucket_key f a \<le> make_bucket_key f b \<longleftrightarrow> a \<le> b"
  by (auto simp add: le_less make_bucket_key_inj)

lemma parse_make_bucket_key [simp]: "parse_bucket_key_val (make_bucket_key f b) = b"
  by (simp add: parse_bucket_key_val_def make_bucket_key_def)

lemma has_field_prefix_self [simp]: "has_field_prefix (make_bucket_key f b) f"
  by (simp add: has_field_prefix_def make_bucket_key_def)

lemma has_field_prefix_wf:
  assumes "wf_field f" "wf_field g"
  shows "has_field_prefix (make_bucket_key g b) f \<longleftrightarrow> f = g"
proof
  assume h: "has_field_prefix (make_bucket_key g b) f"
  then have t: "take (Suc (length f)) (g @ colon # be32 b) = f @ [colon]"
    by (simp add: has_field_prefix_def make_bucket_key_def)
  consider "length f < length g" | "length f = length g" | "length g < length f" by linarith
  then show "f = g"
  proof cases
    case 1
    then have "take (Suc (length f)) (g @ colon # be32 b) = take (Suc (length f)) g" by simp
    with t have "take (Suc (length f)) g = f @ [colon]" by simp
    then have "colon \<in> set (take (Suc (length f)) g)" by simp
    then have "colon \<in> set g" by (rule in_set_takeD)
    with assms(2) show ?thesis by (simp add: wf_field_def)
  next
    case 2
    with t show ?thesis by simp
  next
    case 3
    have "(f @ [colon]) ! length g = take (Suc (length f)) (g @ colon # be32 b) ! length g"
      by (simp only: t)
    also have "\<dots> = (g @ colon # be32 b) ! length g" using 3 by (intro nth_take) simp
    finally have "f ! length g = colon" using 3 by (simp add: nth_append)
    moreover have "f ! length g \<in> set f" using 3 by (intro nth_mem)
    ultimately have "colon \<in> set f" by simp
    with assms(1) show ?thesis by (simp add: wf_field_def)
  qed
qed simp

lemma has_field_prefix_convex:
  assumes "has_field_prefix k1 f" "has_field_prefix k3 f" "k1 \<le> k2" "k2 \<le> k3"
  shows "has_field_prefix k2 f"
  using prefix_convex[of "length f + 1" k1 "f @ [colon]" k3 k2] assms
  by (simp add: has_field_prefix_def)

lemma digit_unat: "n < 10 \<Longrightarrow> unat (of_nat (48 + n) :: u8) = 48 + n"
  by (subst unat_of_nat) simp

lemma to_string_digits: "x \<in> set (to_string n) \<Longrightarrow> 48 \<le> unat x \<and> unat x < 58"
proof (induction n arbitrary: x rule: to_string.induct)
  case (1 n)
  show ?case
  proof (cases "n < 10")
    case True
    with "1.prems" have "x = of_nat (48 + n)"
      by (subst (asm) to_string.simps) (simp del: of_nat_add)
    then show ?thesis using True digit_unat[OF True] by (simp del: of_nat_add)
  next
    case False
    with "1.prems" have "x \<in> set (to_string (n div 10)) \<or> x = of_nat (48 + n mod 10)"
      by (subst (asm) to_string.simps) (auto simp del: of_nat_add)
    then show ?thesis
    proof
      assume "x \<in> set (to_string (n div 10))"
      then show ?thesis using "1.IH"[OF False] by simp
    next
      assume "x = of_nat (48 + n mod 10)"
      moreover have "n mod 10 < 10" by simp
      ultimately show ?thesis using digit_unat[of "n mod 10"] by (simp del: of_nat_add)
    qed
  qed
qed

lemma to_string_no_colon: "colon \<notin> set (to_string n)"
  using to_string_digits[of colon n] by (auto simp: colon_def)

lemma from_to_string: "from_string (to_string n) = n"
proof (induction n rule: to_string.induct)
  case (1 n)
  show ?case
  proof (cases "n < 10")
    case True
    then have "to_string n = [of_nat (48 + n)]" by (subst to_string.simps) simp
    then show ?thesis using True digit_unat[OF True] by (simp add: from_string_def del: of_nat_add)
  next
    case False
    then have ts: "to_string n = to_string (n div 10) @ [of_nat (48 + n mod 10)]"
      by (subst to_string.simps) simp
    have "n mod 10 < 10" by simp
    then have u: "unat (of_nat (48 + n mod 10) :: u8) = 48 + n mod 10"
      by (rule digit_unat)
    from "1.IH"[OF False] have "from_string (to_string (n div 10)) = n div 10" .
    then show ?thesis unfolding ts by (simp add: from_string_def u del: of_nat_add)
  qed
qed

lemma to_string_inj:
  assumes "to_string m = to_string n"
  shows "m = n"
proof -
  have "m = from_string (to_string m)" by (simp only: from_to_string)
  also have "\<dots> = from_string (to_string n)" by (simp only: assms)
  also have "\<dots> = n" by (rule from_to_string)
  finally show ?thesis .
qed

lemma split_at_colon:
  assumes "colon \<notin> set f" "colon \<notin> set g" "f @ colon # x = g @ colon # y"
  shows "f = g \<and> x = y"
  using assms
proof (induction f arbitrary: g)
  case Nil
  then show ?case by (cases g) auto
next
  case (Cons a f)
  then show ?case by (cases g) auto
qed

lemma make_forward_key_inj:
  assumes "wf_field f" "wf_field g"
  shows "make_forward_key f i = make_forward_key g j \<longleftrightarrow> f = g \<and> i = j"
proof
  assume "make_forward_key f i = make_forward_key g j"
  then have "f = g \<and> to_string (unat i) = to_string (unat j)"
    using split_at_colon[of f g] assms by (simp add: make_forward_key_def wf_field_def)
  then show "f = g \<and> i = j" using to_string_inj[of "unat i" "unat j"] by (simp add: word_unat_eq_iff)
qed simp


section \<open>The slide split\<close>

lemma probe_right_loop_spec:
  "p \<le> probe_right_loop ds p \<and>
   (p \<le> length ds \<longrightarrow> probe_right_loop ds p \<le> length ds) \<and>
   run_eq ds p (probe_right_loop ds p) \<and>
   (probe_right_loop ds p < length ds \<longrightarrow>
      probe_right_loop ds p = 0 \<or> ds ! probe_right_loop ds p \<noteq> ds ! (probe_right_loop ds p - 1))"
proof (induction ds p rule: probe_right_loop.induct)
  case (1 ds p)
  show ?case
  proof (cases "p < length ds \<and> p > 0 \<and> ds ! p = ds ! (p - 1)")
    case True
    then have eq: "probe_right_loop ds p = probe_right_loop ds (Suc p)"
      by (subst probe_right_loop.simps) simp
    have ih: "Suc p \<le> probe_right_loop ds (Suc p)"
      "Suc p \<le> length ds \<longrightarrow> probe_right_loop ds (Suc p) \<le> length ds"
      "run_eq ds (Suc p) (probe_right_loop ds (Suc p))"
      "probe_right_loop ds (Suc p) < length ds \<longrightarrow>
         probe_right_loop ds (Suc p) = 0 \<or>
         ds ! probe_right_loop ds (Suc p) \<noteq> ds ! (probe_right_loop ds (Suc p) - 1)"
      using "1.IH"[OF True] by blast+
    have "run_eq ds p (probe_right_loop ds (Suc p))"
      unfolding run_eq_def
    proof (intro allI impI)
      fix j assume j: "p \<le> j \<and> j < probe_right_loop ds (Suc p)"
      show "0 < j \<and> ds ! j = ds ! (j - 1)"
      proof (cases "j = p")
        case True
        then show ?thesis using \<open>p < length ds \<and> p > 0 \<and> ds ! p = ds ! (p - 1)\<close> by simp
      next
        case False
        then have "Suc p \<le> j" using j by simp
        then show ?thesis using ih(3) j by (simp add: run_eq_def)
      qed
    qed
    then show ?thesis unfolding eq using ih True by auto
  next
    case False
    have eq: "probe_right_loop ds p = p"
      by (subst probe_right_loop.simps, simp only: False if_False)
    show ?thesis unfolding eq using False by (auto simp: run_eq_def)
  qed
qed

lemma probe_left_loop_spec:
  "probe_left_loop ds p \<le> p \<and>
   run_eq ds (Suc (probe_left_loop ds p)) (Suc p) \<and>
   (probe_left_loop ds p = 0 \<or> ds ! probe_left_loop ds p \<noteq> ds ! (probe_left_loop ds p - 1))"
proof (induction ds p rule: probe_left_loop.induct)
  case (1 ds p)
  show ?case
  proof (cases "p > 0 \<and> ds ! p = ds ! (p - 1)")
    case True
    then have eq: "probe_left_loop ds p = probe_left_loop ds (p - 1)"
      by (subst probe_left_loop.simps) simp
    have ih: "probe_left_loop ds (p - 1) \<le> p - 1"
      "run_eq ds (Suc (probe_left_loop ds (p - 1))) (Suc (p - 1))"
      "probe_left_loop ds (p - 1) = 0 \<or>
       ds ! probe_left_loop ds (p - 1) \<noteq> ds ! (probe_left_loop ds (p - 1) - 1)"
      using "1.IH"[OF True] by blast+
    have "run_eq ds (Suc (probe_left_loop ds (p - 1))) (Suc p)"
      unfolding run_eq_def
    proof (intro allI impI)
      fix j assume j: "Suc (probe_left_loop ds (p - 1)) \<le> j \<and> j < Suc p"
      show "0 < j \<and> ds ! j = ds ! (j - 1)"
      proof (cases "j = p")
        case True
        then show ?thesis using \<open>p > 0 \<and> ds ! p = ds ! (p - 1)\<close> by simp
      next
        case False
        then have "j < Suc (p - 1)" using j by simp
        then show ?thesis using ih(2) j by (simp add: run_eq_def)
      qed
    qed
    then show ?thesis unfolding eq using ih True by auto
  next
    case False
    have eq: "probe_left_loop ds p = p"
      by (subst probe_left_loop.simps, simp only: False if_False)
    show ?thesis unfolding eq using False by (auto simp: run_eq_def)
  qed
qed

lemma run_eq_mono: "run_eq ds lo hi \<Longrightarrow> lo \<le> lo' \<Longrightarrow> hi' \<le> hi \<Longrightarrow> run_eq ds lo' hi'"
  by (simp add: run_eq_def)

lemma run_eq_join: "run_eq ds a b \<Longrightarrow> run_eq ds b c \<Longrightarrow> run_eq ds a c"
  unfolding run_eq_def by (meson not_le_imp_less)

lemma split_point_spec:
  assumes len: "length (deltas b) = length (ids b)" and n2: "2 \<le> length (ids b)"
  defines "n \<equiv> length (deltas b)" and "mid \<equiv> length (ids b) div 2" and "k \<equiv> split_point b"
  shows "k \<le> n"
    and "k < n \<Longrightarrow> is_cut (deltas b) k"
    and "k < n \<Longrightarrow> mid \<le> k \<Longrightarrow> run_eq (deltas b) mid k"
    and "k < n \<Longrightarrow> k < mid \<Longrightarrow> run_eq (deltas b) (Suc k) n"
    and "k = n \<Longrightarrow> run_eq (deltas b) 1 n"
proof -
  let ?ds = "deltas b"
  define r where "r = probe_right_loop ?ds mid"
  define l where "l = probe_left_loop ?ds mid"
  have mid: "0 < mid" "mid < n" using n2 len by (simp_all add: mid_def n_def)
  note R = probe_right_loop_spec[of mid ?ds, folded r_def]
  note L = probe_left_loop_spec[of ?ds mid, folded l_def]
  have R1: "mid \<le> r" using R by blast
  have R2: "r \<le> n" using R mid by (simp add: n_def)
  have R3: "run_eq ?ds mid r" using R by blast
  have R4: "r < n \<Longrightarrow> ?ds ! r \<noteq> ?ds ! (r - 1)" using R R1 mid by (auto simp: n_def)
  have L1: "l \<le> mid" using L by blast
  have L2: "run_eq ?ds (Suc l) (Suc mid)" using L by blast
  have L3: "0 < l \<Longrightarrow> ?ds ! l \<noteq> ?ds ! (l - 1)" using L by auto
  have kdef: "k = (if r < n then r else if l > 0 then l else n)"
    by (simp add: k_def split_point_def Let_def n_def mid_def r_def l_def)
  have full: "run_eq ?ds (Suc l) n" if "\<not> r < n"
  proof -
    from that R2 have "r = n" by simp
    with R3 have "run_eq ?ds mid n" by simp
    then have "run_eq ?ds (Suc mid) n" by (rule run_eq_mono) simp_all
    with L2 show ?thesis by (rule run_eq_join)
  qed
  consider (right) "r < n" | (left) "\<not> r < n" "0 < l" | (none) "\<not> r < n" "l = 0" by blast
  then have "k \<le> n \<and> (k < n \<longrightarrow> is_cut ?ds k) \<and> (k < n \<longrightarrow> mid \<le> k \<longrightarrow> run_eq ?ds mid k)
      \<and> (k < n \<longrightarrow> k < mid \<longrightarrow> run_eq ?ds (Suc k) n) \<and> (k = n \<longrightarrow> run_eq ?ds 1 n)"
  proof cases
    case right
    then have k: "k = r" by (simp add: kdef)
    have "is_cut ?ds r" using right R4 R1 mid by (simp add: is_cut_def n_def)
    then show ?thesis unfolding k using right R1 R3 by simp
  next
    case left
    then have k: "k = l" by (simp add: kdef)
    have ln: "l < n" using L1 mid by simp
    have "is_cut ?ds l" using left L3 ln by (simp add: is_cut_def n_def)
    moreover have "mid \<le> l \<longrightarrow> run_eq ?ds mid l" using L1 by (auto simp: run_eq_def)
    ultimately show ?thesis unfolding k using ln full[OF left(1)] by simp
  next
    case none
    then have k: "k = n" by (simp add: kdef)
    show ?thesis unfolding k using full[OF none(1)] none(2) by simp
  qed
  then show "k \<le> n"
    and "k < n \<Longrightarrow> is_cut (deltas b) k"
    and "k < n \<Longrightarrow> mid \<le> k \<Longrightarrow> run_eq (deltas b) mid k"
    and "k < n \<Longrightarrow> k < mid \<Longrightarrow> run_eq (deltas b) (Suc k) n"
    and "k = n \<Longrightarrow> run_eq (deltas b) 1 n" by blast+
qed

lemma zip_insert_at:
  assumes "length ds = length rs"
  shows "zip (take k ds @ d # drop k ds) (take k rs @ r # drop k rs)
         = take k (zip ds rs) @ (d, r) # drop k (zip ds rs)"
  using assms by (simp add: take_zip drop_zip)

lemma map_fst_bucket_entries:
  "length (deltas b) = length (ids b) \<Longrightarrow> map fst (bucket_entries b) = deltas b"
  by (simp add: bucket_entries_def)

lemma map_snd_bucket_entries:
  "length (deltas b) = length (ids b) \<Longrightarrow> map snd (bucket_entries b) = ids b"
  by (simp add: bucket_entries_def)

lemma Bucket_add_entries:
  assumes len: "length (deltas b) = length (ids b)"
    and ok: "\<not> v < base_value b" "\<not> v - base_value b > 65535"
  shows "\<exists>b'. Bucket_add b v rid = Inr b' \<and>
           bucket_entries b' = ins_entry (ucast (v - base_value b), rid) (bucket_entries b) \<and>
           length (deltas b') = length (ids b') \<and>
           summary_bitmap b' = insert rid (summary_bitmap b) \<and>
           base_value b' = base_value b"
  using ok len
  by (simp add: Bucket_add_def MAX_DELTA_def Let_def bucket_entries_def ins_entry_def
      take_zip drop_zip)

lemma set_ins_entry [simp]: "set (ins_entry e es) = insert e (set es)"
proof -
  have "set (take k es) \<union> set (drop k es) = set es" for k
    by (metis append_take_drop_id set_append)
  then show ?thesis by (auto simp add: ins_entry_def Let_def)
qed

lemma length_ins_entry [simp]: "length (ins_entry e es) = Suc (length es)"
proof -
  have "lower_bound (map fst es) (fst e) \<le> length es"
    using lower_bound_le[of "map fst es" "fst e"] by simp
  then show ?thesis by (simp add: ins_entry_def Let_def)
qed

lemma map_fst_ins_entry:
  "map fst (ins_entry e es) =
     take (lower_bound (map fst es) (fst e)) (map fst es) @ fst e
       # drop (lower_bound (map fst es) (fst e)) (map fst es)"
  by (simp add: ins_entry_def Let_def take_map drop_map)

lemma sorted_ins_entry: "sorted (map fst es) \<Longrightarrow> sorted (map fst (ins_entry e es))"
  unfolding map_fst_ins_entry by (rule sorted_insert_at_lower_bound)

lemma ins_entry_at_end:
  assumes s: "sorted xs" and le: "\<forall>x \<in> set xs. x \<le> d"
  shows "take (lower_bound xs d) xs @ d # drop (lower_bound xs d) xs = xs @ [d]"
proof -
  let ?k = "lower_bound xs d"
  have "\<forall>x \<in> set (drop ?k xs). x = d"
  proof
    fix x assume x: "x \<in> set (drop ?k xs)"
    then have "d \<le> x" by (rule lower_bound_after[OF s])
    moreover have "x \<le> d" using x le by (meson in_set_dropD)
    ultimately show "x = d" by simp
  qed
  then have "replicate (length (drop ?k xs)) d = drop ?k xs"
    by (rule replicate_length_same)
  then obtain m where m: "drop ?k xs = replicate m d" by metis
  have "take ?k xs @ d # drop ?k xs = take ?k xs @ replicate m d @ [d]"
    unfolding m by (simp add: replicate_append_same)
  also have "\<dots> = (take ?k xs @ drop ?k xs) @ [d]" unfolding m by simp
  finally show ?thesis by simp
qed

lemma delta_shift:
  fixes d dk :: u16 and base :: u32
  assumes le: "dk \<le> d" and nov: "unat base + unat d < 2 ^ 32"
  shows "\<not> base + ucast d < base + ucast dk"
    and "\<not> (base + ucast d) - (base + ucast dk) > 65535"
    and "ucast ((base + ucast d) - (base + ucast dk)) = d - dk"
proof -
  have dl: "unat d < 65536" using unsigned_less[of d, where 'a=nat] by simp
  have dkl: "unat dk < 65536" using unsigned_less[of dk, where 'a=nat] by simp
  have ud: "unat (ucast d :: u32) = unat d" and udk: "unat (ucast dk :: u32) = unat dk"
    using dl dkl by (simp_all add: unsigned_ucast_eq take_bit_nat_eq_self)
  have le': "unat dk \<le> unat d" using le by (simp add: word_le_nat_alt)
  have a: "unat (base + ucast d) = unat base + unat d"
    using nov ud by (simp add: unat_add_lem[THEN iffD1])
  have b: "unat (base + ucast dk) = unat base + unat dk"
    using nov udk le' by (simp add: unat_add_lem[THEN iffD1])
  show 1: "\<not> base + ucast d < base + ucast dk"
    using le' by (simp add: word_less_nat_alt a b)
  have "(base + ucast d) - (base + ucast dk) = (ucast d :: u32) - ucast dk" by simp
  also have "\<dots> = ucast (d - dk)"
    using le' dl by (simp add: word_unat_eq_iff unat_sub word_le_nat_alt ud udk unsigned_ucast_eq
        take_bit_nat_eq_self)
  finally have e: "(base + ucast d) - (base + ucast dk) = ucast (d - dk)" .
  have lt: "unat (d - dk) < 65536" using unsigned_less[of "d - dk", where 'a=nat] by simp
  show "\<not> (base + ucast d) - (base + ucast dk) > 65535"
    unfolding e using lt
    by (simp add: word_less_nat_alt unsigned_ucast_eq take_bit_nat_eq_self)
  show "ucast ((base + ucast d) - (base + ucast dk)) = d - dk"
    unfolding e by (simp add: word_unat_eq_iff unsigned_ucast_eq take_bit_nat_eq_self lt
        take_bit_word_eq_self)
qed

lemma fold_insert_set: "fold insert xs A = set xs \<union> A"
  by (induction xs arbitrary: A) auto

lemma word16_sub_mono:
  fixes a b c :: u16
  assumes "c \<le> a" "a \<le> b"
  shows "a - c \<le> b - c"
  using assms by (simp add: word_le_nat_alt unat_sub)

lemma move_entries_spec:
  assumes len: "length (deltas rb) = length (ids rb)"
    and rbase: "base_value rb = base + ucast dk"
    and xs_ok: "\<forall>e \<in> set xs. dk \<le> fst e \<and> unat base + unat (fst e) < 2 ^ 32"
    and sorted_xs: "sorted (map fst xs)"
    and srt: "sorted (deltas rb)"
    and below: "\<forall>x \<in> set (deltas rb). \<forall>e \<in> set xs. x \<le> fst e - dk"
  shows "\<exists>rb'. move_entries rb base xs = Inr rb' \<and> base_value rb' = base_value rb \<and>
           length (deltas rb') = length (ids rb') \<and>
           deltas rb' = deltas rb @ map fst (shift_entries dk xs) \<and>
           set (bucket_entries rb') = set (bucket_entries rb) \<union> set (shift_entries dk xs) \<and>
           summary_bitmap rb' = summary_bitmap rb \<union> snd ` set xs"
  using assms
proof (induction xs arbitrary: rb)
  case Nil
  then show ?case by (simp add: shift_entries_def)
next
  case (Cons e xs)
  obtain d rid where e: "e = (d, rid)" by (cases e)
  from Cons.prems(3) e have dk: "dk \<le> d" and nov: "unat base + unat d < 2 ^ 32" by auto
  note sh = delta_shift[OF dk nov]
  have ok1: "\<not> base + ucast d < base_value rb" using sh(1) Cons.prems(2) by simp
  have ok2: "\<not> (base + ucast d) - base_value rb > 65535" using sh(2) Cons.prems(2) by simp
  from Bucket_add_entries[OF Cons.prems(1) ok1 ok2, of rid]
  obtain b1 where b1: "Bucket_add rb (base + ucast d) rid = Inr b1"
    and ent1: "bucket_entries b1 = ins_entry (d - dk, rid) (bucket_entries rb)"
    and len1: "length (deltas b1) = length (ids b1)"
    and bm1: "summary_bitmap b1 = insert rid (summary_bitmap rb)"
    and base1: "base_value b1 = base_value rb"
    using sh(3) Cons.prems(2) by auto
  have le_all: "\<forall>x \<in> set (deltas rb). x \<le> d - dk" using Cons.prems(6) e by auto
  have "deltas b1 = map fst (bucket_entries b1)" using len1 by (simp add: map_fst_bucket_entries)
  also have "\<dots> = take (lower_bound (deltas rb) (d - dk)) (deltas rb) @ (d - dk)
                      # drop (lower_bound (deltas rb) (d - dk)) (deltas rb)"
    unfolding ent1 map_fst_ins_entry using Cons.prems(1) by (simp add: map_fst_bucket_entries)
  also have "\<dots> = deltas rb @ [d - dk]" by (rule ins_entry_at_end[OF Cons.prems(5) le_all])
  finally have ds1: "deltas b1 = deltas rb @ [d - dk]" .
  have srt1: "sorted (deltas b1)"
    unfolding ds1 using Cons.prems(5) le_all by (simp add: sorted_append)
  have xs_ok': "\<forall>e \<in> set xs. dk \<le> fst e \<and> unat base + unat (fst e) < 2 ^ 32"
    using Cons.prems(3) by simp
  have sorted_xs': "sorted (map fst xs)" using Cons.prems(4) by simp
  have dle: "\<forall>e \<in> set xs. d \<le> fst e" using Cons.prems(4) e by auto
  have below1: "\<forall>x \<in> set (deltas b1). \<forall>e \<in> set xs. x \<le> fst e - dk"
  proof (intro ballI)
    fix x e' assume x: "x \<in> set (deltas b1)" and e': "e' \<in> set xs"
    from x have "x \<in> set (deltas rb) \<or> x = d - dk" by (auto simp add: ds1)
    then show "x \<le> fst e' - dk"
    proof
      assume "x \<in> set (deltas rb)"
      then show ?thesis using Cons.prems(6) e' by simp
    next
      assume "x = d - dk"
      then show ?thesis using word16_sub_mono[OF dk] dle e' by simp
    qed
  qed
  have rbase1: "base_value b1 = base + ucast dk" using base1 Cons.prems(2) by simp
  from Cons.IH[OF len1 rbase1 xs_ok' sorted_xs' srt1 below1]
  obtain rb' where r: "move_entries b1 base xs = Inr rb'" "base_value rb' = base_value b1"
    "length (deltas rb') = length (ids rb')"
    "deltas rb' = deltas b1 @ map fst (shift_entries dk xs)"
    "set (bucket_entries rb') = set (bucket_entries b1) \<union> set (shift_entries dk xs)"
    "summary_bitmap rb' = summary_bitmap b1 \<union> snd ` set xs" by blast
  have "move_entries rb base (e # xs) = Inr rb'" using b1 r(1) e by simp
  moreover have "deltas rb' = deltas rb @ map fst (shift_entries dk (e # xs))"
    using r(4) ds1 e by (simp add: shift_entries_def)
  moreover have "set (bucket_entries rb') = set (bucket_entries rb) \<union> set (shift_entries dk (e # xs))"
    using r(5) ent1 e by (simp add: shift_entries_def)
  moreover have "summary_bitmap rb' = summary_bitmap rb \<union> snd ` set (e # xs)"
    using r(6) bm1 e by simp
  ultimately show ?case using r(2,3) base1 by simp
qed

lemma is_cut_bounds:
  assumes srt: "sorted ds" and cut: "is_cut ds k"
  shows "\<forall>d \<in> set (take k ds). d < ds ! k" and "\<forall>d \<in> set (drop k ds). ds ! k \<le> d"
proof -
  from cut have k: "0 < k" "k < length ds" "ds ! k \<noteq> ds ! (k - 1)" by (simp_all add: is_cut_def)
  have "ds ! (k - 1) \<le> ds ! k" using srt k by (intro sorted_nth_mono) simp_all
  with k(3) have lt: "ds ! (k - 1) < ds ! k" by simp
  show "\<forall>d \<in> set (take k ds). d < ds ! k"
  proof
    fix d assume "d \<in> set (take k ds)"
    then obtain j where j: "j < k" "d = ds ! j" using k(2)
      by (auto simp add: in_set_conv_nth)
    then have "ds ! j \<le> ds ! (k - 1)" using srt k by (intro sorted_nth_mono) simp_all
    with lt j show "d < ds ! k" by simp
  qed
  show "\<forall>d \<in> set (drop k ds). ds ! k \<le> d"
  proof
    fix d assume "d \<in> set (drop k ds)"
    then obtain j where j: "j < length ds - k" "d = ds ! (k + j)"
      by (auto simp add: in_set_conv_nth)
    then show "ds ! k \<le> d" using srt k by (auto intro!: sorted_nth_mono)
  qed
qed

lemma slide_split_result:
  assumes len: "length (deltas b) = length (ids b)"
    and srt: "sorted (deltas b)"
    and nov: "\<forall>d \<in> set (deltas b). unat (base_value b) + unat d < 2 ^ 32"
    and cut: "is_cut (deltas b) k"
    and cov: "\<not> v < base_value b" "\<not> v - base_value b > 65535"
  defines "dk \<equiv> deltas b ! k"
  defines "rbase \<equiv> base_value b + ucast dk"
  shows "\<exists>left right R0. slide_split b k v rid = Inr (left, right) \<and>
      base_value left = base_value b \<and> base_value right = rbase \<and>
      unat rbase = unat (base_value b) + unat dk \<and>
      base_value R0 = rbase \<and> length (deltas R0) = length (ids R0) \<and>
      deltas R0 = map (\<lambda>d. d - dk) (drop k (deltas b)) \<and>
      set (bucket_entries R0) = set (shift_entries dk (drop k (bucket_entries b))) \<and>
      summary_bitmap R0 = set (drop k (ids b)) \<and>
      length (deltas left) = length (ids left) \<and> length (deltas right) = length (ids right) \<and>
      (v < rbase \<longrightarrow> right = R0 \<and>
         bucket_entries left = ins_entry (ucast (v - base_value b), rid) (take k (bucket_entries b)) \<and>
         summary_bitmap left = insert rid (set (take k (ids b)))) \<and>
      (\<not> v < rbase \<longrightarrow> \<not> v - rbase > 65535 \<and>
         bucket_entries left = take k (bucket_entries b) \<and>
         summary_bitmap left = set (take k (ids b)) \<and>
         bucket_entries right = ins_entry (ucast (v - rbase), rid) (bucket_entries R0) \<and>
         summary_bitmap right = insert rid (summary_bitmap R0))"
proof -
  let ?ds = "deltas b" and ?rs = "ids b" and ?es = "bucket_entries b"
  let ?base = "base_value b"
  from cut have k: "0 < k" "k < length ?ds" by (simp_all add: is_cut_def)
  note cb = is_cut_bounds[OF srt cut, folded dk_def]
  have dk_in: "dk \<in> set ?ds" using k by (simp add: dk_def)
  have nov_dk: "unat ?base + unat dk < 2 ^ 32" using nov dk_in by blast
  have udk: "unat (ucast dk :: u32) = unat dk"
    using unsigned_less[of dk, where 'a=nat]
    by (simp add: unsigned_ucast_eq take_bit_nat_eq_self)
  have urb: "unat rbase = unat ?base + unat dk"
    unfolding rbase_def using nov_dk udk by (simp add: unat_add_lem[THEN iffD1])
  let ?r0 = "new_bucket\<lparr>base_value := rbase\<rparr>"
  let ?xs = "drop k (zip ?ds ?rs)"
  have fst_xs: "map fst ?xs = drop k ?ds" using len by (simp add: drop_map[symmetric])
  have xs_ok: "\<forall>e \<in> set ?xs. dk \<le> fst e \<and> unat ?base + unat (fst e) < 2 ^ 32"
  proof
    fix e assume "e \<in> set ?xs"
    then have "fst e \<in> set (map fst ?xs)" by simp
    then have d: "fst e \<in> set (drop k ?ds)" by (simp only: fst_xs)
    then have "fst e \<in> set ?ds" by (rule in_set_dropD)
    with d cb(2) nov show "dk \<le> fst e \<and> unat ?base + unat (fst e) < 2 ^ 32" by blast
  qed
  have sxs: "sorted (map fst ?xs)" unfolding fst_xs using srt by (rule sorted_wrt_drop)
  from move_entries_spec[of ?r0 ?base dk ?xs, OF _ _ xs_ok sxs]
  obtain R0 where R0: "move_entries ?r0 ?base ?xs = Inr R0" "base_value R0 = rbase"
    "length (deltas R0) = length (ids R0)"
    "deltas R0 = map fst (shift_entries dk ?xs)"
    "set (bucket_entries R0) = set (shift_entries dk ?xs)"
    "summary_bitmap R0 = snd ` set ?xs"
    by (auto simp add: new_bucket_def rbase_def bucket_entries_def)
  have dR0: "deltas R0 = map (\<lambda>d. d - dk) (drop k ?ds)"
    unfolding R0(4) fst_xs[symmetric] by (simp add: shift_entries_def case_prod_beta)
  have bmR0: "summary_bitmap R0 = set (drop k ?rs)"
    unfolding R0(6) using len by (simp add: drop_map[symmetric] flip: set_map)
  let ?left0 = "b\<lparr>deltas := take k ?ds, ids := take k ?rs,
                   summary_bitmap := fold insert (take k ?rs) {}\<rparr>"
  have l0: "length (deltas ?left0) = length (ids ?left0)" using len by simp
  have el0: "bucket_entries ?left0 = take k ?es" by (simp add: bucket_entries_def take_zip)
  have unfold: "slide_split b k v rid =
      (if v \<ge> rbase then
         (case Bucket_add R0 v rid of Inl e \<Rightarrow> Inl e | Inr r' \<Rightarrow> Inr (?left0, r'))
       else (case Bucket_add ?left0 v rid of Inl e \<Rightarrow> Inl e | Inr l' \<Rightarrow> Inr (l', R0)))"
    using R0(1,2) by (simp add: slide_split_def Let_def rbase_def dk_def)
  show ?thesis
  proof (cases "v < rbase")
    case True
    from Bucket_add_entries[OF l0, of v rid] cov
    obtain l' where l': "Bucket_add ?left0 v rid = Inr l'"
      "bucket_entries l' = ins_entry (ucast (v - ?base), rid) (bucket_entries ?left0)"
      "length (deltas l') = length (ids l')"
      "summary_bitmap l' = insert rid (summary_bitmap ?left0)"
      "base_value l' = ?base" by auto
    have nge: "\<not> rbase \<le> v" using True by (simp add: not_le)
    have "slide_split b k v rid = Inr (l', R0)" unfolding unfold using nge l'(1) by simp
    then show ?thesis
      using True l' R0(2,3,5) dR0 bmR0 urb el0
      by (intro exI[of _ l'] exI[of _ R0]) (simp add: fold_insert_set bucket_entries_def)
  next
    case False
    have uv: "unat rbase \<le> unat v" using False by (simp add: word_less_nat_alt)
    have "unat (v - rbase) = unat v - unat rbase" using False by (simp add: unat_sub)
    moreover have "unat (v - ?base) = unat v - unat ?base" using cov(1) by (simp add: unat_sub)
    moreover have "unat (v - ?base) \<le> 65535" using cov(2) by (simp add: word_le_nat_alt not_less)
    ultimately have "unat (v - rbase) \<le> 65535" using urb by simp
    then have ok2: "\<not> v - rbase > 65535" by (simp add: word_less_nat_alt)
    from Bucket_add_entries[OF R0(3), of v rid] False ok2 R0(2)
    obtain r' where r': "Bucket_add R0 v rid = Inr r'"
      "bucket_entries r' = ins_entry (ucast (v - rbase), rid) (bucket_entries R0)"
      "length (deltas r') = length (ids r')"
      "summary_bitmap r' = insert rid (summary_bitmap R0)"
      "base_value r' = rbase" by auto
    have ge: "rbase \<le> v" using False by (simp add: not_less)
    have "slide_split b k v rid = Inr (?left0, r')" unfolding unfold using ge r'(1) by simp
    then show ?thesis
      using False r' R0(2,3,5) dR0 bmR0 urb el0 l0 ok2
      by (intro exI[of _ ?left0] exI[of _ r'] exI[of _ R0]) (simp add: fold_insert_set bucket_entries_def)
  qed
qed

lemma snd_shift_entries [simp]: "map snd (shift_entries dk es) = map snd es"
  by (simp add: shift_entries_def case_prod_beta)

lemma fst_shift_entries: "map fst (shift_entries dk es) = map (\<lambda>d. d - dk) (map fst es)"
  by (simp add: shift_entries_def case_prod_beta)

lemma ids_set_of_entries:
  assumes "length (deltas b) = length (ids b)"
  shows "set (ids b) = snd ` set (bucket_entries b)"
  using map_snd_bucket_entries[OF assms] by (metis set_map)

lemma deltas_of_entries:
  assumes "length (deltas b) = length (ids b)"
  shows "deltas b = map fst (bucket_entries b)"
  using map_fst_bucket_entries[OF assms] by simp

lemma ucast_delta_back:
  fixes x :: u32
  assumes "\<not> x > 65535"
  shows "ucast (ucast x :: u16) = x"
proof -
  have "unat x < 65536" using assms by (simp add: word_less_nat_alt)
  then show ?thesis
    by (simp add: word_unat_eq_iff unsigned_ucast_eq unsigned_take_bit_eq take_bit_nat_eq_self)
qed

lemma entry_value_new:
  assumes "\<not> v < base" "\<not> v - base > 65535"
  shows "entry_value base (ucast (v - base)) = v"
  unfolding entry_value_def ucast_delta_back[OF assms(2)] by simp

lemma unat_entry_value:
  assumes "unat base + unat d < 2 ^ 32"
  shows "unat (entry_value base d) = unat base + unat d"
proof -
  have "unat (ucast d :: u32) = unat d"
    using unsigned_less[of d, where 'a=nat]
    by (simp add: unsigned_ucast_eq take_bit_nat_eq_self)
  then show ?thesis
    unfolding entry_value_def using assms by (simp add: unat_add_lem[THEN iffD1])
qed

lemma sorted_map_sub:
  fixes xs :: "u16 list"
  shows "sorted xs \<Longrightarrow> \<forall>x \<in> set xs. dk \<le> x \<Longrightarrow> sorted (map (\<lambda>d. d - dk) xs)"
  by (induction xs) (auto simp add: word16_sub_mono)

text \<open>
  C3. Let an insert of \<open>(v, id)\<close> meet a saturated bucket (sorted, parallel arrays, values
  within 32 bits, \<open>v\<close> within the bucket's delta range) for which the probes find a cut
  \<open>k\<close> (the first index at or after the midpoint, else the first at or before it, whose delta
  differs from its left neighbour's). Then the split succeeds; the right bucket has base
  \<open>left.base + deltas[k]\<close> and holds exactly the former entries from \<open>k\<close> on with their deltas
  re-expressed against the new base; the left bucket keeps its first \<open>k\<close> entries; the new
  entry is inserted into the left bucket if \<open>v < right.base\<close> and into the right one
  otherwise; each summary bitmap is the set of its bucket's ids; both delta arrays are
  non-decreasing and every value of the left bucket is strictly below \<open>right.base\<close>.
\<close>

theorem slide_split_spec:
  assumes len: "length (deltas b) = length (ids b)"
    and full: "is_full b"
    and srt: "sorted (deltas b)"
    and nov: "\<forall>d \<in> set (deltas b). unat (base_value b) + unat d < 2 ^ 32"
    and cov: "\<not> v < base_value b" "\<not> v - base_value b > 65535"
    and found: "split_point b < length (deltas b)"
  shows "let k = split_point b; mid = length (ids b) div 2; dk = deltas b ! k;
             rbase = base_value b + ucast dk
         in
         is_cut (deltas b) k \<and>
         ((mid \<le> k \<and> run_eq (deltas b) mid k) \<or>
          (k < mid \<and> run_eq (deltas b) (Suc k) (length (deltas b)))) \<and>
         (\<exists>left right. slide_split b k v rid = Inr (left, right) \<and>
            base_value left = base_value b \<and> base_value right = rbase \<and>
            length (deltas left) = length (ids left) \<and>
            length (deltas right) = length (ids right) \<and>
            (if v < rbase then
               bucket_entries left
                 = ins_entry (ucast (v - base_value b), rid) (take k (bucket_entries b)) \<and>
               deltas right = map (\<lambda>d. d - dk) (drop k (deltas b)) \<and>
               set (bucket_entries right) = set (shift_entries dk (drop k (bucket_entries b)))
             else
               bucket_entries left = take k (bucket_entries b) \<and>
               (\<exists>R0. length (deltas R0) = length (ids R0) \<and>
                  deltas R0 = map (\<lambda>d. d - dk) (drop k (deltas b)) \<and>
                  set (bucket_entries R0) = set (shift_entries dk (drop k (bucket_entries b))) \<and>
                  bucket_entries right = ins_entry (ucast (v - rbase), rid) (bucket_entries R0))) \<and>
            summary_bitmap left = set (ids left) \<and> summary_bitmap right = set (ids right) \<and>
            sorted (deltas left) \<and> sorted (deltas right) \<and>
            (\<forall>d \<in> set (deltas left). entry_value (base_value left) d < base_value right))"
proof -
  define k where "k = split_point b"
  define mid where "mid = length (ids b) div 2"
  define dk where "dk = deltas b ! k"
  define rbase where "rbase = base_value b + ucast dk"
  let ?ds = "deltas b" and ?es = "bucket_entries b" and ?base = "base_value b"
  have n2: "2 \<le> length (ids b)" using full by (simp add: is_full_def MAX_SIZE_def)
  note sp = split_point_spec[OF len n2, folded k_def mid_def]
  have kn: "k < length ?ds" using found by (simp add: k_def)
  have cut: "is_cut ?ds k" by (rule sp(2)[OF kn])
  have where_cut: "(mid \<le> k \<and> run_eq ?ds mid k) \<or> (k < mid \<and> run_eq ?ds (Suc k) (length ?ds))"
    using sp(3)[OF kn] sp(4)[OF kn] by (cases "mid \<le> k") auto
  note cb = is_cut_bounds[OF srt cut, folded dk_def]
  from slide_split_result[OF len srt nov cut cov, of rid, folded dk_def, folded rbase_def]
  obtain left right R0 where r: "slide_split b k v rid = Inr (left, right)"
    "base_value left = ?base" "base_value right = rbase"
    "unat rbase = unat ?base + unat dk"
    "length (deltas R0) = length (ids R0)"
    "deltas R0 = map (\<lambda>d. d - dk) (drop k ?ds)"
    "set (bucket_entries R0) = set (shift_entries dk (drop k ?es))"
    "summary_bitmap R0 = set (drop k (ids b))"
    "length (deltas left) = length (ids left)" "length (deltas right) = length (ids right)"
    and lt: "v < rbase \<Longrightarrow> right = R0 \<and>
         bucket_entries left = ins_entry (ucast (v - ?base), rid) (take k ?es) \<and>
         summary_bitmap left = insert rid (set (take k (ids b)))"
    and ge: "\<not> v < rbase \<Longrightarrow> \<not> v - rbase > 65535 \<and>
         bucket_entries left = take k ?es \<and>
         summary_bitmap left = set (take k (ids b)) \<and>
         bucket_entries right = ins_entry (ucast (v - rbase), rid) (bucket_entries R0) \<and>
         summary_bitmap right = insert rid (summary_bitmap R0)"
    by blast
  have fst_take: "map fst (take k ?es) = take k ?ds" and snd_take: "map snd (take k ?es) = take k (ids b)"
    and snd_drop: "map snd (drop k ?es) = drop k (ids b)"
    using len by (simp_all add: bucket_entries_def take_map[symmetric] drop_map[symmetric])
  have s_take: "sorted (map fst (take k ?es))" unfolding fst_take using srt by (rule sorted_wrt_take)
  have sR0: "sorted (deltas R0)"
  proof -
    have "sorted (drop k ?ds)" using srt by (rule sorted_wrt_drop)
    moreover have "\<forall>d \<in> set (drop k ?ds). dk \<le> d" using cb(2) by simp
    ultimately have "sorted (map (\<lambda>d. d - dk) (drop k ?ds))"
      by (rule sorted_map_sub)
    then show ?thesis by (simp only: r(6))
  qed
  have idsR0: "set (ids R0) = set (drop k (ids b))"
    unfolding ids_set_of_entries[OF r(5)] r(7) using snd_drop
    by (metis set_map snd_shift_entries)
  have small: "entry_value ?base d < rbase" if "d \<in> set (take k ?ds)" for d
  proof -
    have "d < dk" using cb(1) that by simp
    then have "unat d < unat dk" by (simp add: word_less_nat_alt)
    moreover have "unat ?base + unat d < 2 ^ 32" using nov that by (meson in_set_takeD)
    ultimately show ?thesis using r(4) by (simp add: word_less_nat_alt unat_entry_value)
  qed
  have main: "(if v < rbase then
               bucket_entries left = ins_entry (ucast (v - ?base), rid) (take k ?es) \<and>
               deltas right = map (\<lambda>d. d - dk) (drop k ?ds) \<and>
               set (bucket_entries right) = set (shift_entries dk (drop k ?es))
             else
               bucket_entries left = take k ?es \<and>
               (\<exists>R0. length (deltas R0) = length (ids R0) \<and>
                  deltas R0 = map (\<lambda>d. d - dk) (drop k ?ds) \<and>
                  set (bucket_entries R0) = set (shift_entries dk (drop k ?es)) \<and>
                  bucket_entries right = ins_entry (ucast (v - rbase), rid) (bucket_entries R0))) \<and>
            summary_bitmap left = set (ids left) \<and> summary_bitmap right = set (ids right) \<and>
            sorted (deltas left) \<and> sorted (deltas right) \<and>
            (\<forall>d \<in> set (deltas left). entry_value (base_value left) d < base_value right)"
  proof (cases "v < rbase")
    case True
    note f = lt[OF True]
    have dl: "deltas left = map fst (ins_entry (ucast (v - ?base), rid) (take k ?es))"
      using deltas_of_entries[OF r(9)] f by simp
    have il: "set (ids left) = insert rid (set (take k (ids b)))"
      unfolding ids_set_of_entries[OF r(9)] using f snd_take by (metis image_insert set_ins_entry set_map snd_conv)
    have "sorted (deltas left)" unfolding dl by (rule sorted_ins_entry[OF s_take])
    moreover have "\<forall>d \<in> set (deltas left). entry_value (base_value left) d < base_value right"
    proof
      fix d assume "d \<in> set (deltas left)"
      then have "d = ucast (v - ?base) \<or> d \<in> set (take k ?ds)"
        unfolding dl using fst_take by (metis fst_conv image_insert insertE list.set_map set_ins_entry)
      then show "entry_value (base_value left) d < base_value right"
        using small True entry_value_new[OF cov] r(2,3) by auto
    qed
    ultimately show ?thesis using True f r(6,7) il sR0 idsR0 r(8) by simp
  next
    case False
    note f = ge[OF False]
    have dr: "deltas right = map fst (ins_entry (ucast (v - rbase), rid) (bucket_entries R0))"
      using deltas_of_entries[OF r(10)] f by simp
    have "sorted (map fst (bucket_entries R0))" using sR0 deltas_of_entries[OF r(5)] by simp
    then have "sorted (deltas right)" unfolding dr by (rule sorted_ins_entry)
    moreover have "set (ids right) = insert rid (set (ids R0))"
      unfolding ids_set_of_entries[OF r(10)] ids_set_of_entries[OF r(5)] using f by simp
    moreover have dl: "deltas left = take k ?ds" using deltas_of_entries[OF r(9)] f fst_take by simp
    moreover have "set (ids left) = set (take k (ids b))"
      unfolding ids_set_of_entries[OF r(9)] using f snd_take by (metis set_map)
    moreover have "sorted (take k ?ds)" using srt by (rule sorted_wrt_take)
    moreover have "\<exists>R0. length (deltas R0) = length (ids R0) \<and>
                  deltas R0 = map (\<lambda>d. d - dk) (drop k ?ds) \<and>
                  set (bucket_entries R0) = set (shift_entries dk (drop k ?es)) \<and>
                  bucket_entries right = ins_entry (ucast (v - rbase), rid) (bucket_entries R0)"
      using r(5,6,7) f by (intro exI[of _ R0]) simp
    moreover have "summary_bitmap right = insert rid (set (ids R0))"
      using f r(8) idsR0 by simp
    moreover have "summary_bitmap left = set (take k (ids b))" using f by simp
    moreover have "bucket_entries left = take k ?es" using f by simp
    ultimately show ?thesis using False r(2,3) small by simp
  qed
  show ?thesis
    unfolding Let_def k_def[symmetric] mid_def[symmetric] dk_def[symmetric] rbase_def[symmetric]
    using cut where_cut r(1,2,3,9,10) main by blast
qed

theorem slide_split_spec_witness:
  "length (deltas split_bucket) = length (ids split_bucket) \<and> is_full split_bucket \<and>
   sorted (deltas split_bucket) \<and>
   list_all (\<lambda>d. unat (base_value split_bucket) + unat d < 2 ^ 32) (deltas split_bucket) \<and>
   \<not> (1003 :: u32) < base_value split_bucket \<and> \<not> (1003 :: u32) - base_value split_bucket > 65535 \<and>
   split_point split_bucket = 512 \<and> split_point split_bucket < length (deltas split_bucket) \<and>
   is_cut (deltas split_bucket) 512 \<and>
   (\<exists>left right. slide_split split_bucket 512 1003 5000 = Inr (left, right) \<and>
      base_value left = 1000 \<and> base_value right = 1007 \<and>
      bucket_entries left = ins_entry (3, 5000) (take 512 (bucket_entries split_bucket)) \<and>
      deltas right = replicate 512 0 \<and>
      sorted (deltas left) \<and> sorted (deltas right) \<and>
      (\<forall>d \<in> set (deltas left). entry_value 1000 d < 1007))"
proof -
  have len: "length (deltas split_bucket) = length (ids split_bucket)"
    by (simp add: split_bucket_def)
  have full: "is_full split_bucket" by (simp add: split_bucket_def is_full_def MAX_SIZE_def)
  have srt: "sorted (deltas split_bucket)" by (simp add: split_bucket_def sorted_append)
  have nov: "\<forall>d \<in> set (deltas split_bucket). unat (base_value split_bucket) + unat d < 2 ^ 32"
    by (auto simp add: split_bucket_def)
  have cov: "\<not> (1003 :: u32) < base_value split_bucket"
    "\<not> (1003 :: u32) - base_value split_bucket > 65535"
    by (simp_all add: split_bucket_def)
  have k: "split_point split_bucket = 512"
    by (simp add: split_point_def split_bucket_def Let_def probe_right_loop.simps[of _ 512]
        nth_append)
  have found: "split_point split_bucket < length (deltas split_bucket)"
    unfolding k by (simp add: split_bucket_def)
  have dk: "deltas split_bucket ! 512 = 7" by (simp add: split_bucket_def nth_append)
  have dr: "map (\<lambda>d. d - 7) (drop 512 (deltas split_bucket)) = replicate 512 0"
    by (simp add: split_bucket_def)
  have b: "base_value split_bucket = 1000" by (simp add: split_bucket_def)
  have concl: "is_cut (deltas split_bucket) 512 \<and>
   (\<exists>left right. slide_split split_bucket 512 1003 5000 = Inr (left, right) \<and>
      base_value left = 1000 \<and> base_value right = 1007 \<and>
      bucket_entries left = ins_entry (3, 5000) (take 512 (bucket_entries split_bucket)) \<and>
      deltas right = replicate 512 0 \<and>
      sorted (deltas left) \<and> sorted (deltas right) \<and>
      (\<forall>d \<in> set (deltas left). entry_value 1000 d < 1007))"
    using slide_split_spec [OF len full srt nov cov found, of 5000]
    unfolding Let_def k dk b dr by auto
  have nov': "list_all (\<lambda>d. unat (base_value split_bucket) + unat d < 2 ^ 32)
      (deltas split_bucket)"
    using nov by (simp only: list_all_iff)
  show ?thesis
    using len full srt nov' cov k found concl by blast
qed

end
